theory Spec2Isabelle
  imports Main "HOL-Library.Multiset"
begin

section \<open>Lights Out: grids and presses\<close>

text \<open>
  The development follows \<^verbatim>\<open>src/puzzle/lights_out.py\<close>, class \<^verbatim>\<open>LightsOutSolver\<close>.
  A grid is a Python list of rows, each a list of integers; the solver's \<^verbatim>\<open>size\<close> is a
  natural number \<open>sz\<close> and \<^verbatim>\<open>self.n = size * size\<close>.  Exceptions are values of the type
  \<open>error\<close>.
\<close>

datatype error = IndexError | ValueError

type_synonym grid = "int list list"

text \<open>
  Python's subscript on a sequence of length \<open>len\<close>: an index in \<open>[0, len)\<close> is taken as it is,
  an index in \<open>[-len, 0)\<close> counts from the end, anything else raises IndexError (here
  \<open>None\<close>).
\<close>

definition py_index :: "nat \<Rightarrow> int \<Rightarrow> nat option" where
  "py_index len i =
     (if 0 \<le> i \<and> i < int len then Some (nat i)
      else if - int len \<le> i \<and> i < 0 then Some (nat (int len + i))
      else None)"

text \<open>
  The list \<^verbatim>\<open>toggles\<close> that both \<^verbatim>\<open>apply_move\<close> (lines 148 to 156) and
  \<^verbatim>\<open>_build_transition_matrix\<close> (lines 38 to 46) build: the cell, then up, down, left and
  right, each only under the guard of the source.
\<close>

definition toggles :: "nat \<Rightarrow> int \<Rightarrow> int \<Rightarrow> (int \<times> int) list" where
  "toggles sz row col =
     [(row, col)]
     @ (if row > 0 then [(row - 1, col)] else [])
     @ (if row < int sz - 1 then [(row + 1, col)] else [])
     @ (if col > 0 then [(row, col - 1)] else [])
     @ (if col < int sz - 1 then [(row, col + 1)] else [])"

text \<open>One pass of the loop body \<^verbatim>\<open>new_grid[r][c] = 1 - new_grid[r][c]\<close>.\<close>

definition toggle_cell :: "grid \<Rightarrow> int \<times> int \<Rightarrow> error + grid" where
  "toggle_cell g rc =
     (case py_index (length g) (fst rc) of
        None \<Rightarrow> Inl IndexError
      | Some r \<Rightarrow>
          (case py_index (length (g ! r)) (snd rc) of
             None \<Rightarrow> Inl IndexError
           | Some c \<Rightarrow> Inr (g[r := (g ! r)[c := 1 - g ! r ! c]])))"

fun toggle_all :: "grid \<Rightarrow> (int \<times> int) list \<Rightarrow> error + grid" where
  "toggle_all g [] = Inr g"
| "toggle_all g (rc # rest) =
     (case toggle_cell g rc of Inl e \<Rightarrow> Inl e | Inr g' \<Rightarrow> toggle_all g' rest)"

text \<open>
  \<^verbatim>\<open>apply_move\<close> on values: the deep copy \<^verbatim>\<open>[row[:] for row in grid]\<close> is the grid itself,
  the toggles are applied to it in order, the first failing subscript raises.
\<close>

definition apply_move :: "nat \<Rightarrow> grid \<Rightarrow> int \<Rightarrow> int \<Rightarrow> error + grid" where
  "apply_move sz g row col = toggle_all g (toggles sz row col)"

text \<open>\<^verbatim>\<open>is_solved\<close>: \<^verbatim>\<open>all(cell == 0 for row in grid for cell in row)\<close>.\<close>

definition is_solved :: "grid \<Rightarrow> bool" where
  "is_solved g = list_all (\<lambda>row. list_all (\<lambda>cell. cell = 0) row) g"

subsection \<open>The same function on a store of row objects\<close>

text \<open>
  Python lists are objects: a grid is a list of references to row objects, and
  \<^verbatim>\<open>new_grid[r][c] = ...\<close> writes into a row object.  The store is the list of all row
  objects, an address is a position in it, allocation appends.  \<^verbatim>\<open>row[:]\<close> allocates a
  copy of a row.
\<close>

type_synonym heap = "int list list"
type_synonym gref = "nat list"

definition deref :: "heap \<Rightarrow> gref \<Rightarrow> grid" where
  "deref h g = map (\<lambda>a. h ! a) g"

definition valid_ref :: "heap \<Rightarrow> gref \<Rightarrow> bool" where
  "valid_ref h g = list_all (\<lambda>a. a < length h) g"

definition copy_rows :: "heap \<Rightarrow> gref \<Rightarrow> gref \<times> heap" where
  "copy_rows h g = ([length h ..< length h + length g], h @ map (\<lambda>a. h ! a) g)"

definition toggle_cell_h :: "heap \<Rightarrow> gref \<Rightarrow> int \<times> int \<Rightarrow> error + heap" where
  "toggle_cell_h h g rc =
     (case py_index (length g) (fst rc) of
        None \<Rightarrow> Inl IndexError
      | Some r \<Rightarrow>
          (case py_index (length (h ! (g ! r))) (snd rc) of
             None \<Rightarrow> Inl IndexError
           | Some c \<Rightarrow> Inr (h[g ! r := (h ! (g ! r))[c := 1 - h ! (g ! r) ! c]])))"

fun toggle_all_h :: "heap \<Rightarrow> gref \<Rightarrow> (int \<times> int) list \<Rightarrow> error option \<times> heap" where
  "toggle_all_h h g [] = (None, h)"
| "toggle_all_h h g (rc # rest) =
     (case toggle_cell_h h g rc of
        Inl e \<Rightarrow> (Some e, h)
      | Inr h' \<Rightarrow> toggle_all_h h' g rest)"

text \<open>
  The result is the returned reference (or the exception) together with the store the
  caller sees afterwards.
\<close>

definition apply_move_h :: "nat \<Rightarrow> heap \<Rightarrow> gref \<Rightarrow> int \<Rightarrow> int \<Rightarrow> (error + gref) \<times> heap" where
  "apply_move_h sz h g row col =
     (case copy_rows h g of
        (new_grid, h1) \<Rightarrow>
          (case toggle_all_h h1 new_grid (toggles sz row col) of
             (Some e, h2) \<Rightarrow> (Inl e, h2)
           | (None, h2) \<Rightarrow> (Inr new_grid, h2)))"

subsection \<open>Well-formed grids\<close>

definition is_grid :: "nat \<Rightarrow> grid \<Rightarrow> bool" where
  "is_grid n g = (length g = n \<and> list_all (\<lambda>row. length row = n) g)"

definition bits :: "int list \<Rightarrow> bool" where
  "bits xs = list_all (\<lambda>v. v = 0 \<or> v = 1) xs"

definition bit_grid :: "nat \<Rightarrow> grid \<Rightarrow> bool" where
  "bit_grid n g = (is_grid n g \<and> list_all bits g)"

text \<open>The cells a press at \<open>(row, col)\<close> reaches: the cell and its orthogonal neighbours.\<close>

definition reaches :: "int \<times> int \<Rightarrow> int \<times> int \<Rightarrow> bool" where
  "reaches p q =
     (q = p \<or> q = (fst p - 1, snd p) \<or> q = (fst p + 1, snd p)
      \<or> q = (fst p, snd p - 1) \<or> q = (fst p, snd p + 1))"

section \<open>The transition matrix\<close>

text \<open>\<^verbatim>\<open>_pos_to_idx\<close> and \<^verbatim>\<open>_idx_to_pos\<close>; the index is a natural number below \<open>size * size\<close>.\<close>

definition pos_to_idx :: "nat \<Rightarrow> int \<Rightarrow> int \<Rightarrow> int" where
  "pos_to_idx sz row col = row * int sz + col"

definition idx_to_pos :: "nat \<Rightarrow> nat \<Rightarrow> int \<times> int" where
  "idx_to_pos sz idx = (int (idx div sz), int (idx mod sz))"

text \<open>
  Row \<open>i\<close> of \<^verbatim>\<open>_build_transition_matrix\<close>: it starts as a row of \<^verbatim>\<open>np.zeros\<close>, and the
  loop over \<^verbatim>\<open>toggles\<close> writes \<^verbatim>\<open>A[i, j] = 1\<close> at \<open>j = _pos_to_idx(r, c)\<close>.  Every such \<open>j\<close>
  lies in \<open>[0, size * size)\<close> (lemma \<open>toggles_in_range\<close>), so the subscript never fails.
\<close>

definition build_row :: "nat \<Rightarrow> nat \<Rightarrow> int list" where
  "build_row sz i =
     foldl (\<lambda>arow rc. arow[nat (pos_to_idx sz (fst rc) (snd rc)) := 1])
       (replicate (sz * sz) 0)
       (toggles sz (fst (idx_to_pos sz i)) (snd (idx_to_pos sz i)))"

definition build_transition_matrix :: "nat \<Rightarrow> int list list" where
  "build_transition_matrix sz = map (build_row sz) [0 ..< sz * sz]"

section \<open>The GF(2) solver\<close>

text \<open>
  \<^verbatim>\<open>_solve_gf2\<close> works on a numpy matrix of integers; here a matrix is the list of its
  rows.  \<^verbatim>\<open>np.hstack([A, b.reshape(-1, 1)])\<close> appends \<open>b[i]\<close> to row \<open>i\<close> of \<open>A\<close>.
\<close>

definition hstack :: "int list list \<Rightarrow> int list \<Rightarrow> int list list" where
  "hstack A b = map2 (\<lambda>arow v. arow @ [v]) A b"

text \<open>The pivot search: the first \<open>r\<close> in \<^verbatim>\<open>range(row, n)\<close> with \<^verbatim>\<open>M[r, col] == 1\<close>.\<close>

definition find_pivot :: "int list list \<Rightarrow> nat \<Rightarrow> nat \<Rightarrow> nat \<Rightarrow> nat option" where
  "find_pivot M n row col = find (\<lambda>r. M ! r ! col = 1) [row ..< n]"

text \<open>
  \<^verbatim>\<open>M[[row, pivot]] = M[[pivot, row]]\<close>: the right-hand side is a copy of the two rows,
  taken before the assignment.
\<close>

definition swap_rows :: "int list list \<Rightarrow> nat \<Rightarrow> nat \<Rightarrow> int list list" where
  "swap_rows M row pivot = M[row := M ! pivot, pivot := M ! row]"

text \<open>\<^verbatim>\<open>(M[r] + M[row]) % 2\<close>, entry by entry; Python's \<open>%\<close> with modulus 2 is \<open>mod\<close>.\<close>

definition add_row :: "int list \<Rightarrow> int list \<Rightarrow> int list" where
  "add_row u v = map2 (\<lambda>a c. (a + c) mod 2) u v"

text \<open>The elimination loop \<^verbatim>\<open>for r in range(n)\<close> of lines 112 to 114.\<close>

definition eliminate :: "int list list \<Rightarrow> nat \<Rightarrow> nat \<Rightarrow> nat \<Rightarrow> int list list" where
  "eliminate M n row col =
     foldl (\<lambda>M' r. if r \<noteq> row \<and> M' ! r ! col = 1
                    then M'[r := add_row (M' ! r) (M' ! row)] else M')
       M [0 ..< n]"

text \<open>One pass of the loop \<^verbatim>\<open>for col in range(n)\<close>; the state is the matrix and \<^verbatim>\<open>row\<close>.\<close>

definition forward_step :: "nat \<Rightarrow> int list list \<times> nat \<Rightarrow> nat \<Rightarrow> int list list \<times> nat" where
  "forward_step n s col =
     (case find_pivot (fst s) n (snd s) col of
        None \<Rightarrow> s
      | Some pivot \<Rightarrow> (eliminate (swap_rows (fst s) (snd s) pivot) n (snd s) col, snd s + 1))"

definition forward_elimination :: "nat \<Rightarrow> int list list \<Rightarrow> int list list \<times> nat" where
  "forward_elimination n M = foldl (forward_step n) (M, 0) [0 ..< n]"

text \<open>
  The same loop, recording as well the columns at which a pivot was found (the values
  of \<^verbatim>\<open>col\<close> at which \<^verbatim>\<open>row += 1\<close> runs): entry \<open>k\<close> of the list is the pivot column of
  row \<open>k\<close>.  The source does not store them; the claims speak about them.
\<close>

definition trace_step ::
  "nat \<Rightarrow> int list list \<times> nat \<times> nat list \<Rightarrow> nat \<Rightarrow> int list list \<times> nat \<times> nat list" where
  "trace_step n s col =
     (case s of (M, row, ps) \<Rightarrow>
        (case find_pivot M n row col of
           None \<Rightarrow> s
         | Some pivot \<Rightarrow> (eliminate (swap_rows M row pivot) n row col, row + 1, ps @ [col])))"

definition forward_trace :: "nat \<Rightarrow> int list list \<Rightarrow> int list list \<times> nat \<times> nat list" where
  "forward_trace n M = foldl (trace_step n) (M, 0, []) [0 ..< n]"

definition pivot_columns :: "nat \<Rightarrow> int list list \<Rightarrow> nat list" where
  "pivot_columns n M = snd (snd (forward_trace n M))"

text \<open>
  The test of lines 119 to 121 on one row, \<^verbatim>\<open>M[r, -1] == 1 and np.all(M[r, :-1] == 0)\<close>,
  and the loop over \<^verbatim>\<open>range(row, n)\<close>.
\<close>

definition zero_one_row :: "int list \<Rightarrow> bool" where
  "zero_one_row mrow = (last mrow = 1 \<and> list_all (\<lambda>v. v = 0) (butlast mrow))"

definition inconsistent :: "nat \<Rightarrow> int list list \<Rightarrow> nat \<Rightarrow> bool" where
  "inconsistent n M row = list_ex (\<lambda>r. zero_one_row (M ! r)) [row ..< n]"

text \<open>
  Back substitution.  \<^verbatim>\<open>np.where(M[i, :-1] == 1)[0]\<close> lists the positions of the ones in the
  coefficient part of row \<open>i\<close>; the first of them is used.  The store \<^verbatim>\<open>x[...] = ...\<close> raises
  IndexError when that position is not below \<open>n\<close>, which needs a matrix wider than \<open>n + 1\<close>.
\<close>

definition first_one :: "int list \<Rightarrow> nat option" where
  "first_one mrow = find (\<lambda>j. butlast mrow ! j = 1) [0 ..< length (butlast mrow)]"

definition back_step :: "int list list \<Rightarrow> nat \<Rightarrow> int list \<Rightarrow> nat \<Rightarrow> error + int list" where
  "back_step M row x i =
     (if i < row then
        (case first_one (M ! i) of
           None \<Rightarrow> Inr x
         | Some j \<Rightarrow> if j < length x then Inr (x[j := last (M ! i)]) else Inl IndexError)
      else Inr x)"

fun back_loop :: "int list list \<Rightarrow> nat \<Rightarrow> int list \<Rightarrow> nat list \<Rightarrow> error + int list" where
  "back_loop M row x [] = Inr x"
| "back_loop M row x (i # rest) =
     (case back_step M row x i of Inl e \<Rightarrow> Inl e | Inr x' \<Rightarrow> back_loop M row x' rest)"

definition back_substitution :: "nat \<Rightarrow> int list list \<Rightarrow> nat \<Rightarrow> error + int list" where
  "back_substitution n M row = back_loop M row (replicate n 0) [0 ..< n]"

text \<open>
  \<^verbatim>\<open>_solve_gf2\<close>.  \<open>Inr None\<close> is the return value \<^verbatim>\<open>None\<close>.  Two exceptions of numpy
  are written as guards: \<^verbatim>\<open>np.hstack\<close> raises ValueError when \<open>A\<close> does not have \<open>len(b)\<close>
  rows, and \<^verbatim>\<open>M[r, col]\<close> raises IndexError in the pivot search as soon as \<open>col\<close> reaches
  the width of \<open>M\<close>, which happens when \<open>A\<close> has fewer than \<open>n - 1\<close> columns (at that
  moment \<open>row \<le> col < n\<close>, so the search does read).
\<close>

definition solve_gf2 :: "int list list \<Rightarrow> int list \<Rightarrow> error + int list option" where
  "solve_gf2 A b =
     (let n = length b in
      if length A \<noteq> n then Inl ValueError
      else if list_ex (\<lambda>arow. length arow + 1 < n) A then Inl IndexError
      else
        (case forward_elimination n (hstack A b) of
           (M, row) \<Rightarrow>
             if inconsistent n M row then Inr None
             else (case back_substitution n M row of
                     Inl e \<Rightarrow> Inl e
                   | Inr x \<Rightarrow> Inr (Some x))))"

text \<open>
  \<^verbatim>\<open>solve\<close>.  \<^verbatim>\<open>np.array(grid, dtype=int)\<close> raises ValueError on rows of unequal length;
  \<^verbatim>\<open>flatten()\<close> concatenates the rows.  The moves are the positions of the entries equal
  to 1, in index order.
\<close>

definition ragged :: "grid \<Rightarrow> bool" where
  "ragged g = list_ex (\<lambda>grow. length grow \<noteq> length (hd g)) g"

definition moves_of :: "nat \<Rightarrow> int list \<Rightarrow> (int \<times> int) list" where
  "moves_of sz x = map (idx_to_pos sz) (filter (\<lambda>i. x ! i = 1) [0 ..< length x])"

definition solve :: "nat \<Rightarrow> grid \<Rightarrow> error + (int \<times> int) list option" where
  "solve sz g =
     (if ragged g then Inl ValueError
      else
        (case solve_gf2 (build_transition_matrix sz) (concat g) of
           Inl e \<Rightarrow> Inl e
         | Inr None \<Rightarrow> Inr None
         | Inr (Some x) \<Rightarrow> Inr (Some (moves_of sz x))))"

text \<open>Applying a list of moves, one \<^verbatim>\<open>apply_move\<close> after the other.\<close>

fun apply_moves :: "nat \<Rightarrow> grid \<Rightarrow> (int \<times> int) list \<Rightarrow> error + grid" where
  "apply_moves sz g [] = Inr g"
| "apply_moves sz g (m # ms) =
     (case apply_move sz g (fst m) (snd m) of
        Inl e \<Rightarrow> Inl e
      | Inr g' \<Rightarrow> apply_moves sz g' ms)"

subsection \<open>What a solution is\<close>

text \<open>
  \<open>x\<close> solves \<open>A x = b\<close> over GF(2): \<open>x\<close> is a vector of bits as long as \<open>b\<close>, and in every
  row the sum of the products is congruent to the entry of \<open>b\<close> modulo 2.
\<close>

definition solves :: "int list list \<Rightarrow> int list \<Rightarrow> int list \<Rightarrow> bool" where
  "solves A b x =
     (length x = length b \<and> bits x
      \<and> (\<forall>i<length b. (\<Sum>j<length b. A ! i ! j * x ! j) mod 2 = b ! i))"

text \<open>A square matrix of bits, the type of the solver's first argument.\<close>

definition bit_matrix :: "nat \<Rightarrow> int list list \<Rightarrow> bool" where
  "bit_matrix n A = (length A = n \<and> list_all (\<lambda>arow. length arow = n \<and> bits arow) A)"

subsection \<open>Invariants of the elimination\<close>

text \<open>An augmented matrix: \<open>n\<close> rows of \<open>n + 1\<close> bits.\<close>

definition aug_matrix :: "nat \<Rightarrow> int list list \<Rightarrow> bool" where
  "aug_matrix n M = (length M = n \<and> (\<forall>r<n. length (M ! r) = Suc n \<and> bits (M ! r)))"

text \<open>
  A vector \<open>x\<close> satisfies an augmented row when the coefficients times \<open>x\<close> plus the
  augmented entry is even, that is, when the row's equation holds modulo 2.
\<close>

definition sat_row :: "int list \<Rightarrow> int list \<Rightarrow> bool" where
  "sat_row mrow x = even (\<Sum>j<Suc (length x). mrow ! j * (x @ [1]) ! j)"

definition sat_all :: "nat \<Rightarrow> int list list \<Rightarrow> int list \<Rightarrow> bool" where
  "sat_all n M x = (\<forall>r<n. sat_row (M ! r) x)"

text \<open>
  The state after the columns below \<open>c\<close> have been processed: rows \<open>0 .. row - 1\<close> carry the
  pivots, row \<open>k\<close> in column \<open>ps ! k\<close>; a pivot column holds a single 1; a pivot row is 0
  left of its pivot; the rows from \<open>row\<close> on are 0 in all columns below \<open>c\<close>.
\<close>

definition rref_inv :: "nat \<Rightarrow> nat \<Rightarrow> int list list \<Rightarrow> nat \<Rightarrow> nat list \<Rightarrow> bool" where
  "rref_inv n c M row ps =
     (aug_matrix n M \<and> length ps = row \<and> row \<le> n \<and> sorted_wrt (<) ps
      \<and> (\<forall>p \<in> set ps. p < c)
      \<and> (\<forall>k<row. M ! k ! (ps ! k) = 1
                   \<and> (\<forall>r<n. r \<noteq> k \<longrightarrow> M ! r ! (ps ! k) = 0)
                   \<and> (\<forall>j<ps ! k. M ! k ! j = 0))
      \<and> (\<forall>r<n. row \<le> r \<longrightarrow> (\<forall>j<c. M ! r ! j = 0)))"

section \<open>Random puzzles\<close>

text \<open>
  \<^verbatim>\<open>generate_random_puzzle\<close> draws from numpy's process-wide generator, which is not part of
  the repository.  It is a parameter here: a type \<open>'r\<close> of generator states, the state
  \<^verbatim>\<open>np.random.seed(s)\<close> installs (or the exception it raises: numpy rejects a seed outside
  \<open>[0, 2\<^sup>3\<^sup>2)\<close>), and \<^verbatim>\<open>np.random.randint(low, high)\<close> as a function from a state to the
  value drawn and the next state.  The ambient state of the generator is an argument of
  the model and its final state is part of the result.
\<close>

record 'r np_random =
  seed_state :: "int \<Rightarrow> error + 'r"
  randint :: "int \<Rightarrow> int \<Rightarrow> 'r \<Rightarrow> int \<times> 'r"

text \<open>\<^verbatim>\<open>np.random.randint(low, high)\<close> raises ValueError unless \<open>low < high\<close>.\<close>

definition py_randint :: "'r np_random \<Rightarrow> int \<Rightarrow> int \<Rightarrow> 'r \<Rightarrow> error + (int \<times> 'r)" where
  "py_randint R lo hi st = (if lo < hi then Inr (randint R lo hi st) else Inl ValueError)"

text \<open>
  The loop \<^verbatim>\<open>for _ in range(num_moves)\<close> of lines 190 to 193, \<open>k\<close> passes left: draw
  \<^verbatim>\<open>row\<close>, draw \<^verbatim>\<open>col\<close>, press.
\<close>

fun press_loop :: "'r np_random \<Rightarrow> nat \<Rightarrow> nat \<Rightarrow> grid \<Rightarrow> 'r \<Rightarrow> (error + grid) \<times> 'r" where
  "press_loop R sz 0 g st = (Inr g, st)"
| "press_loop R sz (Suc k) g st =
     (case py_randint R 0 (int sz) st of
        Inl e \<Rightarrow> (Inl e, st)
      | Inr (row, st1) \<Rightarrow>
          (case py_randint R 0 (int sz) st1 of
             Inl e \<Rightarrow> (Inl e, st1)
           | Inr (col, st2) \<Rightarrow>
               (case apply_move sz g row col of
                  Inl e \<Rightarrow> (Inl e, st2)
                | Inr g' \<Rightarrow> press_loop R sz k g' st2)))"

text \<open>
  \<^verbatim>\<open>generate_random_puzzle(seed)\<close>: \<open>seed\<close> is \<open>None\<close> or \<open>Some s\<close>, \<open>st0\<close> is the state of the
  generator when the call is made.  \<^verbatim>\<open>range(num_moves)\<close> is empty for a count that is
  not positive.
\<close>

definition generate_random_puzzle ::
  "'r np_random \<Rightarrow> nat \<Rightarrow> int option \<Rightarrow> 'r \<Rightarrow> (error + grid) \<times> 'r" where
  "generate_random_puzzle R sz seed st0 =
     (case (case seed of None \<Rightarrow> Inr st0 | Some s \<Rightarrow> seed_state R s) of
        Inl e \<Rightarrow> (Inl e, st0)
      | Inr st \<Rightarrow>
          (let grid = replicate sz (replicate sz 0)
           in case py_randint R 1 (int (sz * sz) + 1) st of
                Inl e \<Rightarrow> (Inl e, st)
              | Inr (num_moves, st1) \<Rightarrow> press_loop R sz (nat num_moves) grid st1))"

text \<open>The contract of \<^verbatim>\<open>randint\<close>: the value drawn lies in \<open>[low, high)\<close>.\<close>

definition rng_ok :: "'r np_random \<Rightarrow> bool" where
  "rng_ok R = (\<forall>lo hi st. lo < hi \<longrightarrow> lo \<le> fst (randint R lo hi st) \<and> fst (randint R lo hi st) < hi)"

text \<open>
  A small generator that meets the contract, for concrete instances: a counter, seeded
  with the seed itself and rejecting the seeds numpy rejects.
\<close>

definition counter_rng :: "int np_random" where
  "counter_rng =
     \<lparr>seed_state = (\<lambda>s. if 0 \<le> s \<and> s < 2 ^ 32 then Inr s else Inl ValueError),
      randint = (\<lambda>lo hi st. (lo + st mod (hi - lo), st + 1))\<rparr>"

section \<open>Properties of a press\<close>

lemma is_grid_nth: "is_grid n g \<Longrightarrow> i < n \<Longrightarrow> length (g ! i) = n"
  by (simp add: is_grid_def list_all_length)

lemma toggles_in_range:
  assumes "0 \<le> row" "row < int n" "0 \<le> col" "col < int n" "rc \<in> set (toggles n row col)"
  shows "0 \<le> fst rc \<and> fst rc < int n \<and> 0 \<le> snd rc \<and> snd rc < int n"
  using assms by (auto simp: toggles_def split: if_splits)

lemma toggles_distinct: "distinct (toggles n row col)"
  by (simp add: toggles_def)

lemma toggles_reaches:
  assumes "0 \<le> row" "row < int n" "0 \<le> col" "col < int n" "i < n" "j < n"
  shows "(int i, int j) \<in> set (toggles n row col) \<longleftrightarrow> reaches (row, col) (int i, int j)"
  using assms by (auto simp: toggles_def reaches_def)

lemma toggle_cell_in_range:
  assumes "is_grid n g" "0 \<le> r" "r < int n" "0 \<le> c" "c < int n"
  shows "toggle_cell g (r, c) = Inr (g[nat r := (g ! nat r)[nat c := 1 - g ! nat r ! nat c]])"
proof -
  have "length g = n" using assms(1) by (simp add: is_grid_def)
  moreover have "length (g ! nat r) = n" using assms by (simp add: is_grid_nth)
  ultimately show ?thesis using assms by (simp add: toggle_cell_def py_index_def)
qed

lemma is_grid_update:
  assumes "is_grid n g"
  shows "is_grid n (g[r := (g ! r)[c := v]])"
proof -
  have "length (g[r := (g ! r)[c := v]] ! i) = n" if "i < n" for i
    using assms that by (cases "i = r") (simp_all add: is_grid_def list_all_length)
  then show ?thesis using assms by (simp add: is_grid_def list_all_length)
qed

lemma toggle_all_in_range:
  assumes "is_grid n g" "distinct ts"
    and "\<forall>rc \<in> set ts. 0 \<le> fst rc \<and> fst rc < int n \<and> 0 \<le> snd rc \<and> snd rc < int n"
  shows "\<exists>g'. toggle_all g ts = Inr g' \<and> is_grid n g'
           \<and> (\<forall>i<n. \<forall>j<n. g' ! i ! j =
                 (if (int i, int j) \<in> set ts then 1 - g ! i ! j else g ! i ! j))"
  using assms
proof (induction ts arbitrary: g)
  case Nil
  then show ?case by simp
next
  case (Cons rc ts)
  obtain r c where rc: "rc = (r, c)" by (cases rc)
  have rng: "0 \<le> r" "r < int n" "0 \<le> c" "c < int n" using Cons.prems(3) rc by auto
  define g1 where "g1 = g[nat r := (g ! nat r)[nat c := 1 - g ! nat r ! nat c]]"
  have step: "toggle_cell g rc = Inr g1"
    unfolding rc g1_def using Cons.prems(1) rng by (rule toggle_cell_in_range)
  have g1: "is_grid n g1" unfolding g1_def using Cons.prems(1) by (rule is_grid_update)
  have len: "length g = n" using Cons.prems(1) by (simp add: is_grid_def)
  have g1_nth: "g1 ! i ! j = (if (int i, int j) = rc then 1 - g ! i ! j else g ! i ! j)"
    if "i < n" "j < n" for i j
  proof (cases "i = nat r")
    case True
    have "length (g ! nat r) = n" using Cons.prems(1) rng by (simp add: is_grid_nth)
    then show ?thesis using True that rng len rc
      by (cases "j = nat c") (auto simp: g1_def)
  next
    case False
    then show ?thesis using that rng len rc by (auto simp: g1_def)
  qed
  from Cons.IH[OF g1] Cons.prems obtain g' where g':
    "toggle_all g1 ts = Inr g'" "is_grid n g'"
    "\<forall>i<n. \<forall>j<n. g' ! i ! j = (if (int i, int j) \<in> set ts then 1 - g1 ! i ! j else g1 ! i ! j)"
    by auto
  have "g' ! i ! j = (if (int i, int j) \<in> set (rc # ts) then 1 - g ! i ! j else g ! i ! j)"
    if "i < n" "j < n" for i j
    using g'(3) g1_nth[OF that] that Cons.prems(2) by auto
  then show ?case using step g'(1,2) by simp
qed

lemma apply_move_in_range:
  assumes "is_grid n g" "0 \<le> row" "row < int n" "0 \<le> col" "col < int n"
  shows "\<exists>g'. apply_move n g row col = Inr g' \<and> is_grid n g'
           \<and> (\<forall>i<n. \<forall>j<n. g' ! i ! j =
                 (if reaches (row, col) (int i, int j) then 1 - g ! i ! j else g ! i ! j))"
proof -
  have "\<forall>rc \<in> set (toggles n row col).
          0 \<le> fst rc \<and> fst rc < int n \<and> 0 \<le> snd rc \<and> snd rc < int n"
    using toggles_in_range[OF assms(2-5)] by blast
  from toggle_all_in_range[OF assms(1) toggles_distinct this]
  show ?thesis unfolding apply_move_def
    using toggles_reaches[OF assms(2-5)] by auto
qed

lemma grid_eqI:
  assumes "is_grid n g" "is_grid n g'" "\<And>i j. i < n \<Longrightarrow> j < n \<Longrightarrow> g ! i ! j = g' ! i ! j"
  shows "g = g'"
proof (rule nth_equalityI)
  show "length g = length g'" using assms(1,2) by (simp add: is_grid_def)
next
  fix i assume "i < length g"
  then have i: "i < n" using assms(1) by (simp add: is_grid_def)
  show "g ! i = g' ! i"
  proof (rule nth_equalityI)
    show "length (g ! i) = length (g' ! i)" using assms(1,2) i by (simp add: is_grid_nth)
  next
    fix j assume "j < length (g ! i)"
    then have "j < n" using assms(1) i by (simp add: is_grid_nth)
    then show "g ! i ! j = g' ! i ! j" using assms(3) i by simp
  qed
qed

subsection \<open>The store model refines the value model\<close>

lemma py_index_Some: "py_index len i = Some r \<Longrightarrow> r < len"
  by (auto simp: py_index_def split: if_splits)

lemma toggle_cell_length: "toggle_cell g rc = Inr g' \<Longrightarrow> length g' = length g"
  by (auto simp: toggle_cell_def split: option.splits)

lemma toggle_cell_h_append:
  assumes "length G = m"
  shows "toggle_cell_h (h @ G) [length h ..< length h + m] rc =
           (case toggle_cell G rc of Inl e \<Rightarrow> Inl e | Inr G' \<Rightarrow> Inr (h @ G'))"
proof (cases "py_index m (fst rc)")
  case None
  then show ?thesis using assms by (simp add: toggle_cell_h_def toggle_cell_def)
next
  case (Some r)
  then have r: "r < m" by (rule py_index_Some)
  have a: "[length h ..< length h + m] ! r = length h + r" using r by simp
  have b: "(h @ G) ! (length h + r) = G ! r" by simp
  show ?thesis using assms Some a b
    by (simp add: toggle_cell_h_def toggle_cell_def list_update_append split: option.splits)
qed

lemma toggle_all_h_append:
  assumes "length G = m"
  shows "\<exists>G'. length G' = m
           \<and> snd (toggle_all_h (h @ G) [length h ..< length h + m] ts) = h @ G'
           \<and> (case toggle_all G ts of
                Inl e \<Rightarrow> fst (toggle_all_h (h @ G) [length h ..< length h + m] ts) = Some e
              | Inr G'' \<Rightarrow> fst (toggle_all_h (h @ G) [length h ..< length h + m] ts) = None
                            \<and> G' = G'')"
  using assms
proof (induction ts arbitrary: G)
  case Nil
  then show ?case by simp
next
  case (Cons rc ts)
  show ?case
  proof (cases "toggle_cell G rc")
    case (Inl e)
    then show ?thesis using Cons.prems toggle_cell_h_append[OF Cons.prems, of h rc] by simp
  next
    case (Inr G1)
    then have "length G1 = m" using Cons.prems toggle_cell_length by fastforce
    have eq_h: "toggle_all_h (h @ G) [length h ..< length h + m] (rc # ts)
                  = toggle_all_h (h @ G1) [length h ..< length h + m] ts"
      using Inr toggle_cell_h_append[OF Cons.prems, of h rc] by simp
    have eq_v: "toggle_all G (rc # ts) = toggle_all G1 ts" using Inr by simp
    show ?thesis unfolding eq_h eq_v using Cons.IH[OF \<open>length G1 = m\<close>] .
  qed
qed

lemma toggle_all_h_first_fails:
  "toggle_cell_h h g rc = Inl e \<Longrightarrow> toggle_all_h h g (rc # ts) = (Some e, h)"
  by simp

lemma deref_fresh: "deref (h @ G) [length h ..< length h + length G] = G"
  by (rule nth_equalityI) (simp_all add: deref_def)

lemma deref_old: "valid_ref h g \<Longrightarrow> deref (h @ G) g = deref h g"
  by (auto simp: deref_def valid_ref_def list_all_iff nth_append)

lemma apply_move_h_refines:
  "\<exists>G'. length G' = length g
      \<and> snd (apply_move_h sz h g row col) = h @ G'
      \<and> (case apply_move sz (deref h g) row col of
           Inl e \<Rightarrow> fst (apply_move_h sz h g row col) = Inl e
         | Inr g' \<Rightarrow> fst (apply_move_h sz h g row col)
                       = Inr [length h ..< length h + length g] \<and> G' = g')"
proof -
  have len: "length (deref h g) = length g" by (simp add: deref_def)
  from toggle_all_h_append[OF len, of h "toggles sz row col"]
  obtain G' where G': "length G' = length g"
    "snd (toggle_all_h (h @ deref h g) [length h ..< length h + length g] (toggles sz row col))
       = h @ G'"
    "case toggle_all (deref h g) (toggles sz row col) of
       Inl e \<Rightarrow> fst (toggle_all_h (h @ deref h g) [length h ..< length h + length g]
                      (toggles sz row col)) = Some e
     | Inr G'' \<Rightarrow> fst (toggle_all_h (h @ deref h g) [length h ..< length h + length g]
                      (toggles sz row col)) = None \<and> G' = G''"
    by blast
  show ?thesis
    using G'
    by (intro exI[of _ G'])
       (auto simp: apply_move_h_def apply_move_def copy_rows_def deref_def
             split: prod.splits option.splits sum.splits)
qed

section \<open>Claims about a press\<close>

text \<open>
  C6.  On an \<open>n \<times> n\<close> grid (of any integers, so in particular of 0/1 values) and for a
  cell \<open>(r, c)\<close> with \<open>0 \<le> r, c < n\<close>, \<^verbatim>\<open>apply_move\<close> returns a grid, and applying it
  again at the same cell returns the original grid:
  \<^verbatim>\<open>apply_move(apply_move(g, r, c), r, c) == g\<close>.
\<close>

theorem apply_move_twice:
  assumes "is_grid n g" "0 \<le> r" "r < int n" "0 \<le> c" "c < int n"
  shows "\<exists>g'. apply_move n g r c = Inr g' \<and> apply_move n g' r c = Inr g"
proof -
  from apply_move_in_range[OF assms] obtain g' where g':
    "apply_move n g r c = Inr g'" "is_grid n g'"
    "\<forall>i<n. \<forall>j<n. g' ! i ! j =
        (if reaches (r, c) (int i, int j) then 1 - g ! i ! j else g ! i ! j)"
    by blast
  from apply_move_in_range[OF g'(2) assms(2-5)] obtain g'' where g'':
    "apply_move n g' r c = Inr g''" "is_grid n g''"
    "\<forall>i<n. \<forall>j<n. g'' ! i ! j =
        (if reaches (r, c) (int i, int j) then 1 - g' ! i ! j else g' ! i ! j)"
    by blast
  have "g'' = g"
    using g''(2) assms(1)
  proof (rule grid_eqI)
    fix i j assume "i < n" "j < n"
    then show "g'' ! i ! j = g ! i ! j" using g'(3) g''(3) by simp
  qed
  then show ?thesis using g'(1) g''(1) by simp
qed

theorem apply_move_twice_witness:
  "is_grid 3 [[0, 1, 0], [1, 1, 0], [0, 0, 1]] \<and> (0::int) \<le> 1 \<and> (1::int) < int 3
   \<and> (0::int) \<le> 2 \<and> (2::int) < int 3
   \<and> (\<exists>g'. apply_move 3 [[0, 1, 0], [1, 1, 0], [0, 0, 1]] 1 2 = Inr g'
          \<and> apply_move 3 g' 1 2 = Inr [[0, 1, 0], [1, 1, 0], [0, 0, 1]])"
proof -
  have h: "is_grid 3 [[0, 1, 0], [1, 1, 0], [0, 0, 1]]" by (simp add: is_grid_def)
  show ?thesis
    using h apply_move_twice[OF h, of 1 2] by simp
qed

text \<open>
  C7.  \<^verbatim>\<open>apply_move\<close> does not mutate its input.  On the store model: for a grid
  reference \<open>g\<close> whose rows live in the store \<open>h\<close>, are \<open>n\<close> in number and of length \<open>n\<close>,
  and for \<open>0 \<le> row, col < n\<close>, the call returns a reference; every object that existed
  before the call is unchanged (so the caller's grid reads as before); and in the
  returned grid the cell \<open>(row, col)\<close> and each of its existing orthogonal neighbours holds
  \<open>1 - v\<close> for the old value \<open>v\<close> (0 becomes 1 and 1 becomes 0), every other cell holds
  its old value.
\<close>

theorem apply_move_frame:
  assumes "valid_ref h g" "is_grid n (deref h g)"
    and "0 \<le> row" "row < int n" "0 \<le> col" "col < int n"
  shows "\<exists>new_grid h'. apply_move_h n h g row col = (Inr new_grid, h')
           \<and> take (length h) h' = h
           \<and> deref h' g = deref h g
           \<and> (\<forall>i<n. \<forall>j<n. deref h' new_grid ! i ! j =
                 (if reaches (row, col) (int i, int j) then 1 - deref h g ! i ! j
                  else deref h g ! i ! j))"
proof -
  from apply_move_in_range[OF assms(2-6)] obtain g' where g':
    "apply_move n (deref h g) row col = Inr g'" "is_grid n g'"
    "\<forall>i<n. \<forall>j<n. g' ! i ! j =
        (if reaches (row, col) (int i, int j) then 1 - deref h g ! i ! j
         else deref h g ! i ! j)"
    by blast
  from apply_move_h_refines[of g n h row col] g'(1)
  have fst_eq: "fst (apply_move_h n h g row col) = Inr [length h ..< length h + length g]"
    and snd_eq: "snd (apply_move_h n h g row col) = h @ g'"
    and len: "length g' = length g"
    by auto
  have res: "apply_move_h n h g row col = (Inr [length h ..< length h + length g], h @ g')"
    using fst_eq snd_eq by (simp add: prod_eq_iff)
  have new: "deref (h @ g') [length h ..< length h + length g] = g'"
    using deref_fresh[of h g'] len by simp
  show ?thesis
    using res new g'(3) deref_old[OF assms(1), of g'] by simp
qed

theorem apply_move_frame_witness:
  "valid_ref [[0, 1], [1, 1]] [0, 1] \<and> is_grid 2 (deref [[0, 1], [1, 1]] [0, 1])
   \<and> (0::int) \<le> 0 \<and> (0::int) < int 2 \<and> (0::int) \<le> 1 \<and> (1::int) < int 2
   \<and> (\<exists>new_grid h'. apply_move_h 2 [[0, 1], [1, 1]] [0, 1] 0 1 = (Inr new_grid, h')
        \<and> take (length [[0, 1], [1, 1::int]]) h' = [[0, 1], [1, 1]]
        \<and> deref h' [0, 1] = deref [[0, 1], [1, 1]] [0, 1]
        \<and> (\<forall>i<2. \<forall>j<2. deref h' new_grid ! i ! j =
              (if reaches (0, 1) (int i, int j) then 1 - deref [[0, 1], [1, 1]] [0, 1] ! i ! j
               else deref [[0, 1], [1, 1]] [0, 1] ! i ! j)))"
proof -
  have h1: "valid_ref [[0, 1], [1, 1]] [0, 1]" by (simp add: valid_ref_def)
  have h2: "is_grid 2 (deref [[0, 1], [1, 1]] [0, 1])" by (simp add: is_grid_def deref_def)
  have h3: "(0::int) \<le> 0" "(0::int) < int 2" "(0::int) \<le> 1" "(1::int) < int 2" by simp_all
  show ?thesis
    using h1 h2 apply_move_frame[OF h1 h2 h3] by simp
qed

text \<open>
  C10.  \<^verbatim>\<open>apply_move\<close> preserves the grid invariant: on an \<open>n \<times> n\<close> grid of values in
  \<open>{0, 1}\<close> and for \<open>0 \<le> row, col < n\<close> it returns a grid that is again \<open>n \<times> n\<close> with all
  values in \<open>{0, 1}\<close>.
\<close>

theorem apply_move_invariant:
  assumes "bit_grid n g" "0 \<le> row" "row < int n" "0 \<le> col" "col < int n"
  shows "\<exists>g'. apply_move n g row col = Inr g' \<and> bit_grid n g'"
proof -
  have ig: "is_grid n g" using assms(1) by (simp add: bit_grid_def)
  from apply_move_in_range[OF ig assms(2-5)] obtain g' where g':
    "apply_move n g row col = Inr g'" "is_grid n g'"
    "\<forall>i<n. \<forall>j<n. g' ! i ! j =
        (if reaches (row, col) (int i, int j) then 1 - g ! i ! j else g ! i ! j)"
    by blast
  have old: "g ! i ! j = 0 \<or> g ! i ! j = 1" if "i < n" "j < n" for i j
    using assms(1) that by (auto simp: bit_grid_def is_grid_def bits_def list_all_length)
  have "g' ! i ! j = 0 \<or> g' ! i ! j = 1" if "i < n" "j < n" for i j
    using g'(3) old[OF that] that by auto
  then have "bit_grid n g'"
    using g'(2) by (auto simp: bit_grid_def is_grid_def bits_def list_all_length)
  then show ?thesis using g'(1) by blast
qed

theorem apply_move_invariant_witness:
  "bit_grid 3 [[0, 1, 0], [1, 1, 0], [0, 0, 1]] \<and> (0::int) \<le> 2 \<and> (2::int) < int 3
   \<and> (0::int) \<le> 0 \<and> (0::int) < int 3
   \<and> (\<exists>g'. apply_move 3 [[0, 1, 0], [1, 1, 0], [0, 0, 1]] 2 0 = Inr g' \<and> bit_grid 3 g')"
proof -
  have h: "bit_grid 3 [[0, 1, 0], [1, 1, 0], [0, 0, 1]]"
    by (simp add: bit_grid_def is_grid_def bits_def)
  show ?thesis
    using h apply_move_invariant[OF h, of 2 0] by simp
qed

text \<open>
  C8 as stated (a coordinate outside \<open>[0, size)\<close> is rejected and no cell is toggled)
  does not hold: the source has no coordinate check, and Python's subscript accepts
  \<open>-1\<close>.  Pressing \<open>(-1, 0)\<close> on the all-off 3 by 3 grid returns a grid in which the
  cells \<open>(2, 0)\<close>, \<open>(0, 0)\<close> and \<open>(2, 1)\<close> are toggled.
\<close>

theorem apply_move_negative_counterexample:
  "apply_move_h 3 [[0, 0, 0], [0, 0, 0], [0, 0, 0]] [0, 1, 2] (- 1) 0
     = (Inr [3, 4, 5],
        [[0, 0, 0], [0, 0, 0], [0, 0, 0], [1, 0, 0], [0, 0, 0], [1, 1, 0]])"
  by (simp add: apply_move_h_def copy_rows_def toggles_def toggle_cell_h_def py_index_def)

lemma toggles_wrap_range:
  assumes "- int n \<le> row" "row < int n" "- int n \<le> col" "col < int n"
    "rc \<in> set (toggles n row col)"
  shows "- int n \<le> fst rc \<and> fst rc < int n \<and> - int n \<le> snd rc \<and> snd rc < int n"
  using assms by (auto simp: toggles_def split: if_splits)

lemma py_index_wrap:
  assumes "- int len \<le> i" "i < int len"
  shows "\<exists>r<len. py_index len i = Some r"
  using assms by (auto simp: py_index_def)

lemma toggle_cell_wrap:
  assumes "is_grid n g" "- int n \<le> r" "r < int n" "- int n \<le> c" "c < int n"
  shows "\<exists>g'. toggle_cell g (r, c) = Inr g' \<and> is_grid n g'"
proof -
  have len: "length g = n" using assms(1) by (simp add: is_grid_def)
  from py_index_wrap[OF assms(2,3)] obtain r' where r': "r' < n" "py_index n r = Some r'" by blast
  have lr: "length (g ! r') = n" using assms(1) r'(1) by (rule is_grid_nth)
  from py_index_wrap[OF assms(4,5)] obtain c' where c': "c' < n" "py_index n c = Some c'" by blast
  have "toggle_cell g (r, c) = Inr (g[r' := (g ! r')[c' := 1 - g ! r' ! c']])"
    using len lr r'(2) c'(2) by (simp add: toggle_cell_def)
  then show ?thesis using is_grid_update[OF assms(1), of r' c'] by simp
qed

lemma toggle_all_wrap:
  assumes "is_grid n g"
    and "\<forall>rc \<in> set ts. - int n \<le> fst rc \<and> fst rc < int n \<and> - int n \<le> snd rc \<and> snd rc < int n"
  shows "\<exists>g'. toggle_all g ts = Inr g' \<and> is_grid n g'"
  using assms
proof (induction ts arbitrary: g)
  case Nil
  then show ?case by simp
next
  case (Cons rc ts)
  obtain r c where rc: "rc = (r, c)" by (cases rc)
  have "- int n \<le> r" "r < int n" "- int n \<le> c" "c < int n" using Cons.prems(2) rc by auto
  from toggle_cell_wrap[OF Cons.prems(1) this] obtain g1 where
    g1: "toggle_cell g rc = Inr g1" "is_grid n g1" using rc by blast
  from Cons.IH[OF g1(2)] Cons.prems(2) obtain g' where "toggle_all g1 ts = Inr g'" "is_grid n g'"
    by auto
  then show ?case using g1(1) by simp
qed

lemma apply_move_wrap:
  assumes "is_grid n g" "- int n \<le> row" "row < int n" "- int n \<le> col" "col < int n"
  shows "\<exists>g'. apply_move n g row col = Inr g' \<and> is_grid n g'"
  unfolding apply_move_def
  using toggle_all_wrap[OF assms(1), of "toggles n row col"] toggles_wrap_range[OF assms(2-5)]
  by blast

text \<open>
  C8, amended.  \<^verbatim>\<open>apply_move\<close> has no coordinate check of its own; what rejects a call is
  Python's subscript.  On an \<open>n \<times> n\<close> grid with \<open>size = n\<close>: a call whose \<open>row\<close> or \<open>col\<close>
  lies outside \<open>[-n, n)\<close> raises IndexError at the first subscript, before any cell is
  toggled (the private copy is still equal to the input grid); every other call, so also
  one with a coordinate in \<open>[-n, 0)\<close>, returns a grid.  In both cases every object of the
  caller's store is unchanged.
\<close>

theorem apply_move_out_of_range:
  assumes "valid_ref h g" "is_grid n (deref h g)"
  shows "(if row < - int n \<or> int n \<le> row \<or> col < - int n \<or> int n \<le> col
          then apply_move_h n h g row col = (Inl IndexError, h @ deref h g)
          else (\<exists>new_grid. fst (apply_move_h n h g row col) = Inr new_grid))
         \<and> take (length h) (snd (apply_move_h n h g row col)) = h
         \<and> deref (snd (apply_move_h n h g row col)) g = deref h g"
proof -
  have len: "length (deref h g) = length g" by (simp add: deref_def)
  have n: "length g = n" using assms(2) by (simp add: is_grid_def deref_def)
  let ?refs = "[length h ..< length h + length g]"
  from apply_move_h_refines[of g n h row col] obtain G' where G':
    "snd (apply_move_h n h g row col) = h @ G'"
    "case apply_move n (deref h g) row col of
       Inl e \<Rightarrow> fst (apply_move_h n h g row col) = Inl e
     | Inr g' \<Rightarrow> fst (apply_move_h n h g row col) = Inr ?refs \<and> G' = g'"
    by blast
  have frame: "take (length h) (snd (apply_move_h n h g row col)) = h
      \<and> deref (snd (apply_move_h n h g row col)) g = deref h g"
    using G'(1) deref_old[OF assms(1), of G'] by simp
  show ?thesis
  proof (cases "row < - int n \<or> int n \<le> row \<or> col < - int n \<or> int n \<le> col")
    case True
    have "toggle_cell (deref h g) (row, col) = Inl IndexError"
    proof (cases "py_index n row")
      case None
      then show ?thesis using n len by (simp add: toggle_cell_def)
    next
      case (Some r)
      then have r: "r < n" by (rule py_index_Some)
      have "- int n \<le> row \<and> row < int n"
        using Some by (auto simp: py_index_def split: if_splits)
      then have "py_index n col = None" using True by (auto simp: py_index_def)
      moreover have "length (deref h g ! r) = n" using assms(2) r by (rule is_grid_nth)
      ultimately show ?thesis using n len Some by (simp add: toggle_cell_def)
    qed
    then have "toggle_cell_h (h @ deref h g) ?refs (row, col) = Inl IndexError"
      using toggle_cell_h_append[OF len, of h "(row, col)"] by simp
    then have "toggle_all_h (h @ deref h g) ?refs ((row, col) # ts) = (Some IndexError, h @ deref h g)"
      for ts by (rule toggle_all_h_first_fails)
    then have "apply_move_h n h g row col = (Inl IndexError, h @ deref h g)"
      by (simp add: apply_move_h_def copy_rows_def toggles_def deref_def)
    then show ?thesis using True frame by simp
  next
    case False
    then have "- int n \<le> row" "row < int n" "- int n \<le> col" "col < int n" by simp_all
    from apply_move_wrap[OF assms(2) this] obtain g' where
      "apply_move n (deref h g) row col = Inr g'" by blast
    then have "fst (apply_move_h n h g row col) = Inr ?refs" using G'(2) by simp
    then show ?thesis using False frame by simp
  qed
qed

theorem apply_move_out_of_range_witness:
  "valid_ref [[0, 1], [1, 1]] [0, 1] \<and> is_grid 2 (deref [[0, 1], [1, 1]] [0, 1])
   \<and> apply_move_h 2 [[0, 1], [1, 1]] [0, 1] 2 0
        = (Inl IndexError, [[0, 1], [1, 1]] @ deref [[0, 1], [1, 1]] [0, 1])
   \<and> take (length [[0, 1], [1, 1::int]]) (snd (apply_move_h 2 [[0, 1], [1, 1]] [0, 1] 2 0))
        = [[0, 1], [1, 1]]
   \<and> deref (snd (apply_move_h 2 [[0, 1], [1, 1]] [0, 1] 2 0)) [0, 1]
        = deref [[0, 1], [1, 1]] [0, 1]
   \<and> (\<exists>new_grid. fst (apply_move_h 2 [[0, 1], [1, 1]] [0, 1] (- 2) 1) = Inr new_grid)"
proof -
  have h1: "valid_ref [[0, 1], [1, 1]] [0, 1]" by (simp add: valid_ref_def)
  have h2: "is_grid 2 (deref [[0, 1], [1, 1]] [0, 1])" by (simp add: is_grid_def deref_def)
  show ?thesis
    using h1 h2 apply_move_out_of_range[OF h1 h2, of 2 0]
      apply_move_out_of_range[OF h1 h2, of "- 2" 1]
    by (simp add: deref_def)
qed

section \<open>Properties of the transition matrix\<close>

lemma foldl_set_one_length:
  "length (foldl (\<lambda>arow k. arow[f k := (1::int)]) a ts) = length a"
  by (induction ts arbitrary: a) simp_all

lemma foldl_set_one_nth:
  "j < length a \<Longrightarrow>
     foldl (\<lambda>arow k. arow[f k := (1::int)]) a ts ! j = (if j \<in> f ` set ts then 1 else a ! j)"
proof (induction ts arbitrary: a)
  case Nil
  then show ?case by simp
next
  case (Cons k ts)
  have "j < length (a[f k := 1])" using Cons.prems by simp
  from Cons.IH[OF this] show ?case using Cons.prems by (auto simp: nth_list_update)
qed

lemma idx_to_pos_in_range:
  assumes "i < n * n"
  shows "0 \<le> fst (idx_to_pos n i) \<and> fst (idx_to_pos n i) < int n
         \<and> 0 \<le> snd (idx_to_pos n i) \<and> snd (idx_to_pos n i) < int n"
proof -
  have "0 < n" using assms by (cases n) simp_all
  moreover have "i div n < n" using assms by (simp add: less_mult_imp_div_less)
  ultimately show ?thesis by (simp add: idx_to_pos_def)
qed

lemma pos_to_idx_eq:
  assumes "0 \<le> r" "r < int n" "0 \<le> c" "c < int n" "j < n * n"
  shows "nat (pos_to_idx n r c) = j \<longleftrightarrow> (r, c) = idx_to_pos n j"
proof -
  obtain r' c' where rc: "r = int r'" "c = int c'" "r' < n" "c' < n"
    using assms(1-4) by (metis nat_less_iff nat_0_le)
  have "nat (pos_to_idx n r c) = r' * n + c'"
    unfolding pos_to_idx_def rc by (simp add: nat_add_distrib nat_mult_distrib)
  moreover have "r' * n + c' = j \<longleftrightarrow> r' = j div n \<and> c' = j mod n"
    using rc(4) by auto
  ultimately show ?thesis by (simp add: idx_to_pos_def rc)
qed

lemma pos_to_idx_inverse:
  "pos_to_idx n (fst (idx_to_pos n i)) (snd (idx_to_pos n i)) = int i"
proof -
  have "i div n * n + i mod n = i" by simp
  then have "int (i div n * n + i mod n) = int i" by (rule arg_cong)
  then show ?thesis
    unfolding pos_to_idx_def idx_to_pos_def by (simp only: fst_conv snd_conv of_nat_add of_nat_mult)
qed

lemma cell_index_lt:
  assumes "0 \<le> r" "r < int n" "0 \<le> c" "c < int n"
  shows "nat (pos_to_idx n r c) < n * n \<and> idx_to_pos n (nat (pos_to_idx n r c)) = (r, c)"
proof -
  obtain r' c' where rc: "r = int r'" "c = int c'" "r' < n" "c' < n"
    using assms by (metis nat_less_iff nat_0_le)
  have k: "nat (pos_to_idx n r c) = r' * n + c'"
    unfolding pos_to_idx_def rc by (simp add: nat_add_distrib nat_mult_distrib)
  have "r' * n + c' < r' * n + n" using rc(4) by simp
  also have "\<dots> = Suc r' * n" by simp
  also have "\<dots> \<le> n * n" using rc(3) by (intro mult_le_mono1) simp
  finally have lt: "r' * n + c' < n * n" .
  have "(r, c) = idx_to_pos n (nat (pos_to_idx n r c))"
    using pos_to_idx_eq[OF assms, of "nat (pos_to_idx n r c)"] lt k by simp
  then show ?thesis using lt k by simp
qed

lemma reaches_sym: "reaches p q \<longleftrightarrow> reaches q p"
  by (cases p; cases q) (auto simp: reaches_def)

lemma build_row_length: "length (build_row n i) = n * n"
  by (simp add: build_row_def foldl_set_one_length)

lemma build_row_nth:
  assumes "i < n * n" "j < n * n"
  shows "build_row n i ! j = (if reaches (idx_to_pos n i) (idx_to_pos n j) then 1 else 0)"
proof -
  let ?ts = "toggles n (fst (idx_to_pos n i)) (snd (idx_to_pos n i))"
  let ?f = "\<lambda>rc. nat (pos_to_idx n (fst rc) (snd rc))"
  note ri = idx_to_pos_in_range[OF assms(1)]
  note rj = idx_to_pos_in_range[OF assms(2)]
  have rng: "0 \<le> fst rc \<and> fst rc < int n \<and> 0 \<le> snd rc \<and> snd rc < int n" if "rc \<in> set ?ts" for rc
    using toggles_in_range[of "fst (idx_to_pos n i)" n "snd (idx_to_pos n i)" rc] ri that
    by blast
  have "j \<in> ?f ` set ?ts \<longleftrightarrow> idx_to_pos n j \<in> set ?ts"
  proof
    assume "j \<in> ?f ` set ?ts"
    then obtain rc where rc: "rc \<in> set ?ts" "?f rc = j" by auto
    then have "(fst rc, snd rc) = idx_to_pos n j"
      using pos_to_idx_eq[of "fst rc" n "snd rc" j] rng[OF rc(1)] assms(2) by blast
    then show "idx_to_pos n j \<in> set ?ts" using rc(1) by simp
  next
    assume m: "idx_to_pos n j \<in> set ?ts"
    have "j = ?f (idx_to_pos n j)" by (simp add: pos_to_idx_inverse)
    then show "j \<in> ?f ` set ?ts" using m by (rule image_eqI)
  qed
  moreover have "idx_to_pos n j \<in> set ?ts \<longleftrightarrow> reaches (idx_to_pos n i) (idx_to_pos n j)"
  proof -
    have jn: "j div n < n" "j mod n < n" using rj by (simp_all add: idx_to_pos_def)
    from toggles_reaches[of "fst (idx_to_pos n i)" n "snd (idx_to_pos n i)" "j div n" "j mod n"]
    show ?thesis using ri jn by (simp add: idx_to_pos_def)
  qed
  ultimately show ?thesis
    using assms(2) by (simp add: build_row_def foldl_set_one_nth)
qed

lemma build_nth: "i < n * n \<Longrightarrow> build_transition_matrix n ! i = build_row n i"
  by (simp add: build_transition_matrix_def)

lemma build_entry:
  assumes "i < n * n" "j < n * n"
  shows "build_transition_matrix n ! i ! j
           = (if reaches (idx_to_pos n i) (idx_to_pos n j) then 1 else 0)"
  using assms by (simp add: build_nth build_row_nth)

lemma build_sym:
  assumes "i < n * n" "j < n * n"
  shows "build_transition_matrix n ! i ! j = build_transition_matrix n ! j ! i"
  using build_entry[OF assms] build_entry[OF assms(2,1)] reaches_sym by simp

text \<open>
  C5.  For every size \<open>n \<ge> 1\<close> the built matrix has \<open>n\<^sup>2\<close> rows of length \<open>n\<^sup>2\<close>; the
  entry \<open>A[i][j]\<close> is 1 exactly when cell \<open>j\<close> is cell \<open>i\<close> or an orthogonal neighbour of it
  (and 0 otherwise), cells being indexed by \<open>i = row * n + col\<close>, which is a bijection
  between the positions and the indices below \<open>n\<^sup>2\<close>; and \<open>A\<close> is symmetric.
\<close>

theorem build_transition_matrix_correct:
  assumes "1 \<le> n"
  shows "length (build_transition_matrix n) = n * n
       \<and> (\<forall>i<n * n. length (build_transition_matrix n ! i) = n * n)
       \<and> (\<forall>i<n * n. pos_to_idx n (fst (idx_to_pos n i)) (snd (idx_to_pos n i)) = int i)
       \<and> (\<forall>r<n. \<forall>c<n. nat (pos_to_idx n (int r) (int c)) < n * n
             \<and> idx_to_pos n (nat (pos_to_idx n (int r) (int c))) = (int r, int c))
       \<and> (\<forall>i<n * n. \<forall>j<n * n.
             (build_transition_matrix n ! i ! j = 1 \<longleftrightarrow>
                reaches (idx_to_pos n i) (idx_to_pos n j))
             \<and> (build_transition_matrix n ! i ! j = 0 \<longleftrightarrow>
                \<not> reaches (idx_to_pos n i) (idx_to_pos n j)))
       \<and> (\<forall>i<n * n. \<forall>j<n * n.
             build_transition_matrix n ! i ! j = build_transition_matrix n ! j ! i)"
proof -
  have "length (build_transition_matrix n) = n * n"
    by (simp add: build_transition_matrix_def)
  moreover have "\<forall>i<n * n. length (build_transition_matrix n ! i) = n * n"
    by (simp add: build_nth build_row_length)
  moreover have "\<forall>i<n * n. pos_to_idx n (fst (idx_to_pos n i)) (snd (idx_to_pos n i)) = int i"
    by (simp add: pos_to_idx_inverse)
  moreover have "\<forall>r<n. \<forall>c<n. nat (pos_to_idx n (int r) (int c)) < n * n
             \<and> idx_to_pos n (nat (pos_to_idx n (int r) (int c))) = (int r, int c)"
    using cell_index_lt[of _ n] by simp
  moreover have "\<forall>i<n * n. \<forall>j<n * n.
             (build_transition_matrix n ! i ! j = 1 \<longleftrightarrow>
                reaches (idx_to_pos n i) (idx_to_pos n j))
             \<and> (build_transition_matrix n ! i ! j = 0 \<longleftrightarrow>
                \<not> reaches (idx_to_pos n i) (idx_to_pos n j))"
    by (simp add: build_entry)
  moreover have "\<forall>i<n * n. \<forall>j<n * n.
             build_transition_matrix n ! i ! j = build_transition_matrix n ! j ! i"
    using build_sym by blast
  ultimately show ?thesis by blast
qed

theorem build_transition_matrix_correct_witness:
  "(1::nat) \<le> 2
   \<and> length (build_transition_matrix 2) = 2 * 2
   \<and> list_all (\<lambda>i. length (build_transition_matrix 2 ! i) = 2 * 2) [0 ..< 2 * 2]
   \<and> list_all (\<lambda>i. pos_to_idx 2 (fst (idx_to_pos 2 i)) (snd (idx_to_pos 2 i)) = int i) [0 ..< 2 * 2]
   \<and> list_all (\<lambda>r. list_all (\<lambda>c. nat (pos_to_idx 2 (int r) (int c)) < 2 * 2
         \<and> idx_to_pos 2 (nat (pos_to_idx 2 (int r) (int c))) = (int r, int c)) [0 ..< 2]) [0 ..< 2]
   \<and> list_all (\<lambda>i. list_all (\<lambda>j.
         (build_transition_matrix 2 ! i ! j = 1 \<longleftrightarrow>
            reaches (idx_to_pos 2 i) (idx_to_pos 2 j))
         \<and> (build_transition_matrix 2 ! i ! j = 0 \<longleftrightarrow>
            \<not> reaches (idx_to_pos 2 i) (idx_to_pos 2 j))) [0 ..< 2 * 2]) [0 ..< 2 * 2]
   \<and> list_all (\<lambda>i. list_all (\<lambda>j.
         build_transition_matrix 2 ! i ! j = build_transition_matrix 2 ! j ! i)
           [0 ..< 2 * 2]) [0 ..< 2 * 2]"
proof -
  have h: "(1::nat) \<le> 2" by simp
  note t = build_transition_matrix_correct[OF h]
  show ?thesis using h t unfolding list_all_iff by auto
qed

section \<open>Elimination: row operations\<close>

lemma bits_nth: "bits xs \<longleftrightarrow> (\<forall>j<length xs. xs ! j = 0 \<or> xs ! j = 1)"
  by (simp add: bits_def list_all_length)

lemma add_row_length: "length (add_row u v) = min (length u) (length v)"
  by (simp add: add_row_def)

lemma add_row_nth:
  "j < length u \<Longrightarrow> j < length v \<Longrightarrow> add_row u v ! j = (u ! j + v ! j) mod 2"
  by (simp add: add_row_def)

lemma add_row_bits: "bits (add_row u v)"
  by (auto simp: bits_nth add_row_length add_row_nth)

lemma swap_rows_length: "length (swap_rows M i j) = length M"
  by (simp add: swap_rows_def)

lemma swap_rows_nth:
  assumes "i < length M" "j < length M" "r < length M"
  shows "swap_rows M i j ! r = (if r = j then M ! i else if r = i then M ! j else M ! r)"
  using assms by (simp add: swap_rows_def nth_list_update)

lemma eliminate_prefix:
  fixes M :: "int list list" and row col k :: nat
  assumes "row < length M" "k \<le> length M"
  defines "F \<equiv> (\<lambda>M' r. if r \<noteq> row \<and> M' ! r ! col = 1
                         then M'[r := add_row (M' ! r) (M' ! row)] else M')"
  shows "length (foldl F M [0 ..< k]) = length M
       \<and> (\<forall>r<length M. foldl F M [0 ..< k] ! r =
             (if r < k \<and> r \<noteq> row \<and> M ! r ! col = 1 then add_row (M ! r) (M ! row)
              else M ! r))"
  using assms(2)
proof (induction k)
  case 0
  then show ?case by simp
next
  case (Suc k)
  let ?Mk = "foldl F M [0 ..< k]"
  have k: "k < length M" using Suc.prems by simp
  have IH: "length ?Mk = length M"
    "\<And>r. r < length M \<Longrightarrow> ?Mk ! r =
       (if r < k \<and> r \<noteq> row \<and> M ! r ! col = 1 then add_row (M ! r) (M ! row) else M ! r)"
    using Suc.IH k by simp_all
  have at_k: "?Mk ! k = M ! k" using IH(2)[OF k] by simp
  have at_row: "?Mk ! row = M ! row" using IH(2)[OF assms(1)] by simp
  have step: "foldl F M [0 ..< Suc k] =
      (if k \<noteq> row \<and> M ! k ! col = 1 then ?Mk[k := add_row (M ! k) (M ! row)] else ?Mk)"
  proof -
    have "F N k = (if k \<noteq> row \<and> N ! k ! col = 1 then N[k := add_row (N ! k) (N ! row)] else N)"
      for N by (simp add: F_def)
    from this[of ?Mk] show ?thesis by (simp add: at_k at_row)
  qed
  show ?case
  proof (intro conjI allI impI)
    show "length (foldl F M [0 ..< Suc k]) = length M" unfolding step using IH(1) by simp
  next
    fix r assume r: "r < length M"
    show "foldl F M [0 ..< Suc k] ! r =
        (if r < Suc k \<and> r \<noteq> row \<and> M ! r ! col = 1 then add_row (M ! r) (M ! row)
         else M ! r)"
    proof (cases "r = k")
      case True
      show ?thesis
      proof (cases "k \<noteq> row \<and> M ! k ! col = 1")
        case c: True
        then have "foldl F M [0 ..< Suc k] = ?Mk[k := add_row (M ! k) (M ! row)]"
          using step by presburger
        then have "foldl F M [0 ..< Suc k] ! k = add_row (M ! k) (M ! row)"
          using IH(1) k by simp
        then show ?thesis using True c by simp
      next
        case c: False
        then have "foldl F M [0 ..< Suc k] = ?Mk" using step by presburger
        then have "foldl F M [0 ..< Suc k] ! k = M ! k" using at_k by simp
        then show ?thesis using True c by auto
      qed
    next
      case False
      then have "foldl F M [0 ..< Suc k] ! r = ?Mk ! r" unfolding step by simp
      then show ?thesis using IH(2)[OF r] False by (simp add: less_Suc_eq)
    qed
  qed
qed

lemma eliminate_length: "row < length M \<Longrightarrow> n \<le> length M \<Longrightarrow> length (eliminate M n row col) = length M"
  using eliminate_prefix[of row M n col] by (simp add: eliminate_def)

lemma eliminate_nth:
  assumes "row < length M" "n \<le> length M" "r < n"
  shows "eliminate M n row col ! r =
           (if r \<noteq> row \<and> M ! r ! col = 1 then add_row (M ! r) (M ! row) else M ! r)"
  using eliminate_prefix[of row M n col] assms by (simp add: eliminate_def)

lemma find_pivot_Some:
  assumes "find_pivot M n row col = Some p"
  shows "row \<le> p \<and> p < n \<and> M ! p ! col = 1"
proof -
  from assms obtain i where i: "i < length [row ..< n]" "M ! ([row ..< n] ! i) ! col = 1"
    "p = [row ..< n] ! i"
    unfolding find_pivot_def find_Some_iff by blast
  then show ?thesis by simp
qed

lemma find_pivot_None:
  assumes "find_pivot M n row col = None" "row \<le> r" "r < n"
  shows "M ! r ! col \<noteq> 1"
  using assms unfolding find_pivot_def find_None_iff by simp

lemma even_sum_cong:
  fixes f g :: "nat \<Rightarrow> int"
  assumes "\<And>j. j < m \<Longrightarrow> even (f j) = even (g j)"
  shows "even (\<Sum>j<m. f j) = even (\<Sum>j<m. g j)"
  using assms by (induction m) simp_all

lemma sat_row_add:
  assumes "length u = Suc (length x)" "length v = Suc (length x)"
  shows "sat_row (add_row u v) x \<longleftrightarrow> (sat_row u x \<longleftrightarrow> sat_row v x)"
proof -
  let ?y = "x @ [1]"
  let ?m = "Suc (length x)"
  have "even (\<Sum>j<?m. add_row u v ! j * ?y ! j) = even (\<Sum>j<?m. u ! j * ?y ! j + v ! j * ?y ! j)"
  proof (rule even_sum_cong)
    fix j assume "j < ?m"
    then have "add_row u v ! j = (u ! j + v ! j) mod 2" using assms by (simp add: add_row_nth)
    then show "even (add_row u v ! j * ?y ! j) = even (u ! j * ?y ! j + v ! j * ?y ! j)"
      by (simp add: even_mod_2_iff flip: distrib_right)
  qed
  then show ?thesis by (simp add: sat_row_def sum.distrib)
qed

lemma sat_all_swap:
  assumes "i < n" "j < n" "length M = n"
  shows "sat_all n (swap_rows M i j) x \<longleftrightarrow> sat_all n M x"
proof
  assume a: "sat_all n (swap_rows M i j) x"
  show "sat_all n M x" unfolding sat_all_def
  proof (intro allI impI)
    fix r assume r: "r < n"
    let ?r' = "if r = i then j else if r = j then i else r"
    have "?r' < n" using r assms by simp
    then have "sat_row (swap_rows M i j ! ?r') x" using a by (simp add: sat_all_def)
    moreover have "swap_rows M i j ! ?r' = M ! r" using assms r by (simp add: swap_rows_nth)
    ultimately show "sat_row (M ! r) x" by simp
  qed
next
  assume a: "sat_all n M x"
  show "sat_all n (swap_rows M i j) x" unfolding sat_all_def
  proof (intro allI impI)
    fix r assume r: "r < n"
    show "sat_row (swap_rows M i j ! r) x"
      using a assms r by (simp add: swap_rows_nth sat_all_def)
  qed
qed

lemma sat_all_eliminate:
  assumes "row < n" "length M = n" "length x = n" "\<forall>r<n. length (M ! r) = Suc n"
  shows "sat_all n (eliminate M n row col) x \<longleftrightarrow> sat_all n M x"
proof -
  have nth: "eliminate M n row col ! r =
      (if r \<noteq> row \<and> M ! r ! col = 1 then add_row (M ! r) (M ! row) else M ! r)" if "r < n" for r
    using eliminate_nth[of row M n r col] assms that by simp
  have add: "sat_row (add_row (M ! r) (M ! row)) x \<longleftrightarrow> (sat_row (M ! r) x \<longleftrightarrow> sat_row (M ! row) x)"
    if "r < n" for r
    using sat_row_add[of "M ! r" x "M ! row"] assms that by simp
  show ?thesis
  proof
    assume a: "sat_all n (eliminate M n row col) x"
    have "sat_row (eliminate M n row col ! row) x" using a assms(1) by (simp add: sat_all_def)
    then have prow: "sat_row (M ! row) x" using nth[OF assms(1)] by simp
    show "sat_all n M x" unfolding sat_all_def
    proof (intro allI impI)
      fix r assume r: "r < n"
      have "sat_row (eliminate M n row col ! r) x" using a r by (simp add: sat_all_def)
      then show "sat_row (M ! r) x" using nth[OF r] add[OF r] prow by (simp split: if_splits)
    qed
  next
    assume a: "sat_all n M x"
    show "sat_all n (eliminate M n row col) x" unfolding sat_all_def
    proof (intro allI impI)
      fix r assume r: "r < n"
      have "sat_row (M ! r) x" "sat_row (M ! row) x" using a r assms(1) by (simp_all add: sat_all_def)
      then show "sat_row (eliminate M n row col ! r) x" using nth[OF r] add[OF r] by simp
    qed
  qed
qed

section \<open>Elimination: the invariant\<close>

lemma aug_matrix_swap:
  assumes "aug_matrix n M" "i < n" "j < n"
  shows "aug_matrix n (swap_rows M i j)"
  using assms by (simp add: aug_matrix_def swap_rows_length swap_rows_nth)

lemma aug_matrix_eliminate:
  assumes "aug_matrix n M" "row < n"
  shows "aug_matrix n (eliminate M n row col)"
proof -
  have len: "length M = n" using assms(1) by (simp add: aug_matrix_def)
  have "length (eliminate M n row col ! r) = Suc n \<and> bits (eliminate M n row col ! r)"
    if "r < n" for r
    using eliminate_nth[of row M n r col] assms that len
    by (simp add: aug_matrix_def add_row_length add_row_bits)
  then show ?thesis using len assms(2) by (simp add: aug_matrix_def eliminate_length)
qed

lemma aug_matrix_entry:
  assumes "aug_matrix n M" "r < n" "j \<le> n"
  shows "M ! r ! j = 0 \<or> M ! r ! j = 1"
  using assms by (simp add: aug_matrix_def bits_nth)

lemma rref_inv_no_pivot:
  assumes "rref_inv n c M row ps" "find_pivot M n row c = None" "c < n"
  shows "rref_inv n (Suc c) M row ps"
proof -
  have am: "aug_matrix n M" using assms(1) by (simp add: rref_inv_def)
  have low: "\<forall>r<n. row \<le> r \<longrightarrow> (\<forall>j<c. M ! r ! j = 0)" using assms(1) by (simp add: rref_inv_def)
  have "M ! r ! j = 0" if "r < n" "row \<le> r" "j < Suc c" for r j
  proof (cases "j = c")
    case True
    have "M ! r ! c \<noteq> 1" using assms(2) that(2,1) by (rule find_pivot_None)
    then show ?thesis using aug_matrix_entry[OF am that(1), of c] assms(3) True by simp
  next
    case False
    then show ?thesis using low that by simp
  qed
  moreover have "\<forall>p \<in> set ps. p < Suc c" using assms(1) by (auto simp: rref_inv_def)
  ultimately show ?thesis using assms(1) by (simp add: rref_inv_def)
qed

lemma rref_inv_pivot:
  assumes inv: "rref_inv n c M row ps" and fp: "find_pivot M n row c = Some p" and c: "c < n"
  shows "rref_inv n (Suc c) (eliminate (swap_rows M row p) n row c) (Suc row) (ps @ [c])"
proof -
  define S where "S = swap_rows M row p"
  define E where "E = eliminate S n row c"
  have am: "aug_matrix n M" and lps: "length ps = row" and srt: "sorted_wrt (<) ps"
    and pslt: "\<forall>q \<in> set ps. q < c"
    using inv by (simp_all add: rref_inv_def)
  have piv: "M ! k ! (ps ! k) = 1" if "k < row" for k
    using inv that by (simp add: rref_inv_def)
  have col0: "M ! r ! (ps ! k) = 0" if "k < row" "r < n" "r \<noteq> k" for k r
    using inv that by (simp add: rref_inv_def)
  have left0: "M ! k ! j = 0" if "k < row" "j < ps ! k" for k j
    using inv that by (simp add: rref_inv_def)
  have low0: "M ! r ! j = 0" if "r < n" "row \<le> r" "j < c" for r j
    using inv that by (simp add: rref_inv_def)
  have p: "row \<le> p" "p < n" "M ! p ! c = 1" using find_pivot_Some[OF fp] by simp_all
  have row: "row < n" using p by simp
  have len: "length M = n" using am by (simp add: aug_matrix_def)
  have psk: "ps ! k < c" if "k < row" for k using pslt lps that by simp
  have S_nth: "S ! r = (if r = p then M ! row else if r = row then M ! p else M ! r)"
    if "r < n" for r
    unfolding S_def using swap_rows_nth[of row M p r] row p(2) that len by simp
  have amS: "aug_matrix n S" unfolding S_def using am row p(2) by (rule aug_matrix_swap)
  have lenS: "length S = n" using amS by (simp add: aug_matrix_def)
  have amE: "aug_matrix n E" unfolding E_def using amS row by (rule aug_matrix_eliminate)
  have S_row: "S ! row = M ! p" using S_nth[OF row] by simp
  have R_c: "S ! row ! c = 1" using S_row p(3) by simp
  have R_low: "S ! row ! j = 0" if "j < c" for j using S_row low0[OF p(2,1) that] by simp
  have S_bit: "S ! r ! j = 0 \<or> S ! r ! j = 1" if "r < n" "j \<le> n" for r j
    using amS that by (rule aug_matrix_entry)
  have E_entry: "E ! r ! j =
      (if r \<noteq> row \<and> S ! r ! c = 1 then (S ! r ! j + S ! row ! j) mod 2 else S ! r ! j)"
    if "r < n" "j \<le> n" for r j
  proof -
    have "length (S ! r) = Suc n" "length (S ! row) = Suc n"
      using amS that(1) row by (simp_all add: aug_matrix_def)
    then have "add_row (S ! r) (S ! row) ! j = (S ! r ! j + S ! row ! j) mod 2"
      using that(2) by (simp add: add_row_nth)
    then show ?thesis
      unfolding E_def using eliminate_nth[of row S n r c] row lenS that(1) by simp
  qed
  have E_low: "E ! r ! j = S ! r ! j" if "r < n" "j < c" for r j
  proof -
    have jn: "j \<le> n" using that(2) c by simp
    show ?thesis using E_entry[OF that(1) jn] S_bit[OF that(1) jn] R_low[OF that(2)] by auto
  qed
  have E_c: "E ! r ! c = 0" if "r < n" "r \<noteq> row" for r
  proof -
    have cn: "c \<le> n" using c by simp
    show ?thesis using E_entry[OF that(1) cn] S_bit[OF that(1) cn] R_c that(2) by auto
  qed
  have E_row_c: "E ! row ! c = 1" using E_entry[OF row, of c] c R_c by simp
  have S_old: "S ! k = M ! k" if "k < row" for k
    using S_nth[of k] that p(1) row by simp
  have S_low: "S ! r ! j = 0" if "r < n" "row \<le> r" "j < c" for r j
    using S_nth[OF that(1)] low0[OF _ _ that(3)] that(1,2) p(1,2) row by auto
  have S_col0: "S ! r ! (ps ! k) = 0" if "k < row" "r < n" "r \<noteq> k" for k r
    using S_nth[OF that(2)] col0[OF that(1)] that p(1,2) row by auto
  have new_ps: "(ps @ [c]) ! k = (if k < row then ps ! k else c)" if "k < Suc row" for k
    using that lps by (auto simp: nth_append)
  have rows: "E ! k ! ((ps @ [c]) ! k) = 1
              \<and> (\<forall>r<n. r \<noteq> k \<longrightarrow> E ! r ! ((ps @ [c]) ! k) = 0)
              \<and> (\<forall>j<(ps @ [c]) ! k. E ! k ! j = 0)" if "k < Suc row" for k
  proof (cases "k < row")
    case True
    have kn: "k < n" using True row by simp
    have q: "(ps @ [c]) ! k = ps ! k" using new_ps[OF that] True by simp
    have "E ! k ! (ps ! k) = 1"
      using E_low[OF kn psk[OF True]] S_old[OF True] piv[OF True] by simp
    moreover have "E ! r ! (ps ! k) = 0" if "r < n" "r \<noteq> k" for r
      using E_low[OF that(1) psk[OF True]] S_col0[OF True that] by simp
    moreover have "E ! k ! j = 0" if "j < ps ! k" for j
    proof -
      have "j < c" using that psk[OF True] by simp
      then show ?thesis using E_low[OF kn] S_old[OF True] left0[OF True that] by simp
    qed
    ultimately show ?thesis unfolding q by blast
  next
    case False
    then have k: "k = row" using that by simp
    have q: "(ps @ [c]) ! row = c" using lps by (simp add: nth_append)
    have "E ! row ! j = 0" if "j < c" for j
      using E_low[OF row that] R_low[OF that] by simp
    then show ?thesis unfolding k q using E_row_c E_c by blast
  qed
  have below: "E ! r ! j = 0" if "r < n" "Suc row \<le> r" "j < Suc c" for r j
  proof (cases "j = c")
    case True
    then show ?thesis using E_c[OF that(1)] that(2) by simp
  next
    case False
    then have j: "j < c" using that(3) by simp
    have "row \<le> r" using that(2) by simp
    then show ?thesis using E_low[OF that(1) j] S_low[OF that(1) _ j] by simp
  qed
  show ?thesis
    unfolding rref_inv_def S_def[symmetric] E_def[symmetric]
  proof (intro conjI)
    show "aug_matrix n E" by (rule amE)
    show "length (ps @ [c]) = Suc row" using lps by simp
    show "Suc row \<le> n" using row by simp
    show "sorted_wrt (<) (ps @ [c])" using srt pslt by (simp add: sorted_wrt_append)
    show "\<forall>q \<in> set (ps @ [c]). q < Suc c" using pslt by auto
    show "\<forall>k<Suc row. E ! k ! ((ps @ [c]) ! k) = 1
              \<and> (\<forall>r<n. r \<noteq> k \<longrightarrow> E ! r ! ((ps @ [c]) ! k) = 0)
              \<and> (\<forall>j<(ps @ [c]) ! k. E ! k ! j = 0)"
      using rows by blast
    show "\<forall>r<n. Suc row \<le> r \<longrightarrow> (\<forall>j<Suc c. E ! r ! j = 0)"
      using below by blast
  qed
qed

lemma rref_inv_init: "aug_matrix n M \<Longrightarrow> rref_inv n 0 M 0 []"
  by (simp add: rref_inv_def)

lemma trace_step_sat:
  assumes "rref_inv n c M row ps" "length x = n"
  shows "sat_all n (fst (trace_step n (M, row, ps) c)) x \<longleftrightarrow> sat_all n M x"
proof (cases "find_pivot M n row c")
  case None
  then show ?thesis by (simp add: trace_step_def)
next
  case (Some p)
  have am: "aug_matrix n M" using assms(1) by (simp add: rref_inv_def)
  have p: "row \<le> p" "p < n" using find_pivot_Some[OF Some] by simp_all
  then have row: "row < n" by simp
  have amS: "aug_matrix n (swap_rows M row p)" using am row p(2) by (rule aug_matrix_swap)
  have "sat_all n (eliminate (swap_rows M row p) n row c) x \<longleftrightarrow> sat_all n (swap_rows M row p) x"
    using row amS assms(2) by (intro sat_all_eliminate) (simp_all add: aug_matrix_def)
  also have "\<dots> \<longleftrightarrow> sat_all n M x"
    using row p(2) am by (intro sat_all_swap) (simp_all add: aug_matrix_def)
  finally show ?thesis using Some by (simp add: trace_step_def)
qed

lemma trace_step_inv:
  assumes "rref_inv n c M row ps" "c < n"
  shows "\<exists>M' row' ps'. trace_step n (M, row, ps) c = (M', row', ps')
           \<and> rref_inv n (Suc c) M' row' ps'"
proof (cases "find_pivot M n row c")
  case None
  then show ?thesis using rref_inv_no_pivot[OF assms(1) None assms(2)]
    by (simp add: trace_step_def)
next
  case (Some p)
  then show ?thesis using rref_inv_pivot[OF assms(1) Some assms(2)]
    by (simp add: trace_step_def)
qed

lemma trace_prefix:
  assumes "aug_matrix n M0" "c \<le> n"
  shows "\<exists>M row ps. foldl (trace_step n) (M0, 0, []) [0 ..< c] = (M, row, ps)
           \<and> rref_inv n c M row ps
           \<and> (\<forall>x. length x = n \<longrightarrow> (sat_all n M x \<longleftrightarrow> sat_all n M0 x))"
  using assms(2)
proof (induction c)
  case 0
  then show ?case using rref_inv_init[OF assms(1)] by simp
next
  case (Suc c)
  then obtain M row ps where st: "foldl (trace_step n) (M0, 0, []) [0 ..< c] = (M, row, ps)"
    and inv: "rref_inv n c M row ps"
    and sat: "\<forall>x. length x = n \<longrightarrow> (sat_all n M x \<longleftrightarrow> sat_all n M0 x)"
    by auto
  have c: "c < n" using Suc.prems by simp
  from trace_step_inv[OF inv c] obtain M' row' ps' where
    st': "trace_step n (M, row, ps) c = (M', row', ps')" and inv': "rref_inv n (Suc c) M' row' ps'"
    by blast
  have "sat_all n M' x \<longleftrightarrow> sat_all n M0 x" if "length x = n" for x
    using trace_step_sat[OF inv that, of ] st' sat that by simp
  then show ?case using st st' inv' by simp
qed

lemma forward_trace_inv:
  assumes "aug_matrix n M0"
  shows "\<exists>M row ps. forward_trace n M0 = (M, row, ps)
           \<and> rref_inv n n M row ps
           \<and> (\<forall>x. length x = n \<longrightarrow> (sat_all n M x \<longleftrightarrow> sat_all n M0 x))"
  using trace_prefix[OF assms, of n] by (simp add: forward_trace_def)

lemma forward_fold_trace:
  "foldl (forward_step n) (M, row) cs =
     (fst (foldl (trace_step n) (M, row, ps) cs), fst (snd (foldl (trace_step n) (M, row, ps) cs)))"
proof (induction cs arbitrary: M row ps)
  case Nil
  then show ?case by simp
next
  case (Cons c cs)
  show ?case
  proof (cases "find_pivot M n row c")
    case None
    then show ?thesis using Cons.IH[of M row ps] by (simp add: forward_step_def trace_step_def)
  next
    case (Some p)
    then show ?thesis
      using Cons.IH[of "eliminate (swap_rows M row p) n row c" "row + 1" "ps @ [c]"]
      by (simp add: forward_step_def trace_step_def)
  qed
qed

lemma forward_elimination_trace:
  "forward_trace n M0 = (M, row, ps) \<Longrightarrow> forward_elimination n M0 = (M, row)"
  using forward_fold_trace[of n M0 0 "[0 ..< n]" "[]"]
  by (simp add: forward_elimination_def forward_trace_def)

section \<open>Back substitution\<close>

lemma back_loop_append:
  "back_loop M row x (is @ js) =
     (case back_loop M row x is of Inl e \<Rightarrow> Inl e | Inr x' \<Rightarrow> back_loop M row x' js)"
  by (induction "is" arbitrary: x) (simp_all split: sum.splits)

lemma rref_last:
  assumes "rref_inv n c M row ps" "r < n"
  shows "last (M ! r) = M ! r ! n"
proof -
  have "length (M ! r) = Suc n" using assms by (simp add: rref_inv_def aug_matrix_def)
  moreover from this have "M ! r \<noteq> []" by auto
  ultimately show ?thesis by (simp add: last_conv_nth)
qed

lemma rref_butlast:
  "rref_inv n c M row ps \<Longrightarrow> r < n \<Longrightarrow>
     length (butlast (M ! r)) = n \<and> (\<forall>j<n. butlast (M ! r) ! j = M ! r ! j)"
  by (simp add: rref_inv_def aug_matrix_def nth_butlast)

lemma rref_pivot_lt:
  assumes "rref_inv n c M row ps" "c \<le> n" "k < row"
  shows "ps ! k < n"
proof -
  have "ps ! k \<in> set ps" using assms(1,3) by (simp add: rref_inv_def)
  moreover have "\<forall>p \<in> set ps. p < c" using assms(1) by (simp add: rref_inv_def)
  ultimately show ?thesis using assms(2) by fastforce
qed

lemma rref_distinct:
  assumes "rref_inv n c M row ps" "i < row" "k < row" "i \<noteq> k"
  shows "ps ! i \<noteq> ps ! k"
proof -
  have "distinct ps" using assms(1) by (simp add: rref_inv_def strict_sorted_iff)
  then show ?thesis using assms by (simp add: rref_inv_def nth_eq_iff_index_eq)
qed

lemma first_one_pivot:
  assumes "rref_inv n n M row ps" "k < row"
  shows "first_one (M ! k) = Some (ps ! k)"
proof -
  have kn: "k < n" using assms by (simp add: rref_inv_def)
  have q: "ps ! k < n" using assms by (simp add: rref_pivot_lt)
  note bl = rref_butlast[OF assms(1) kn]
  have one: "M ! k ! (ps ! k) = 1" and left: "\<forall>j<ps ! k. M ! k ! j = 0"
    using assms by (simp_all add: rref_inv_def)
  have "\<exists>i<length [0 ..< n]. butlast (M ! k) ! ([0 ..< n] ! i) = 1 \<and> ps ! k = [0 ..< n] ! i
           \<and> (\<forall>j<i. \<not> butlast (M ! k) ! ([0 ..< n] ! j) = 1)"
    using q bl one left by (intro exI[of _ "ps ! k"]) simp
  then show ?thesis using bl unfolding first_one_def find_Some_iff by simp
qed

lemma back_prefix:
  assumes "rref_inv n n M row ps" "k \<le> n"
  shows "\<exists>x. back_loop M row (replicate n 0) [0 ..< k] = Inr x \<and> length x = n
           \<and> (\<forall>i<row. i < k \<longrightarrow> x ! (ps ! i) = last (M ! i))
           \<and> (\<forall>j<n. (\<forall>i<row. i < k \<longrightarrow> ps ! i \<noteq> j) \<longrightarrow> x ! j = 0)"
  using assms(2)
proof (induction k)
  case 0
  then show ?case by simp
next
  case (Suc k)
  then obtain x where x: "back_loop M row (replicate n 0) [0 ..< k] = Inr x" "length x = n"
    "\<forall>i<row. i < k \<longrightarrow> x ! (ps ! i) = last (M ! i)"
    "\<forall>j<n. (\<forall>i<row. i < k \<longrightarrow> ps ! i \<noteq> j) \<longrightarrow> x ! j = 0"
    by auto
  have loop: "back_loop M row (replicate n 0) [0 ..< Suc k] = back_step M row x k"
    using x(1) by (simp add: back_loop_append split: sum.splits)
  show ?case
  proof (cases "k < row")
    case False
    then have "back_step M row x k = Inr x" by (simp add: back_step_def)
    moreover have "(i < row \<and> i < Suc k) = (i < row \<and> i < k)" for i using False by auto
    ultimately show ?thesis using loop x by auto
  next
    case True
    have q: "ps ! k < n" using assms(1) True by (simp add: rref_pivot_lt)
    let ?x' = "x[ps ! k := last (M ! k)]"
    have step: "back_step M row x k = Inr ?x'"
      using True first_one_pivot[OF assms(1) True] q x(2) by (simp add: back_step_def)
    have a: "?x' ! (ps ! i) = last (M ! i)" if "i < row" "i < Suc k" for i
    proof (cases "i = k")
      case True
      then show ?thesis using q x(2) by simp
    next
      case False
      then have "ps ! i \<noteq> ps ! k" using rref_distinct[OF assms(1) that(1) \<open>k < row\<close>] by simp
      then show ?thesis using x(3) that False by simp
    qed
    have b: "?x' ! j = 0" if "j < n" "\<forall>i<row. i < Suc k \<longrightarrow> ps ! i \<noteq> j" for j
    proof -
      have "ps ! k \<noteq> j" using that(2) True by simp
      moreover have "\<forall>i<row. i < k \<longrightarrow> ps ! i \<noteq> j" using that(2) by simp
      ultimately show ?thesis using x(4) that(1) by simp
    qed
    show ?thesis using loop step x(2) a b by simp
  qed
qed

lemma back_substitution_result:
  assumes "rref_inv n n M row ps"
  shows "\<exists>x. back_substitution n M row = Inr x \<and> length x = n
           \<and> (\<forall>k<row. x ! (ps ! k) = last (M ! k))
           \<and> (\<forall>j<n. j \<notin> set ps \<longrightarrow> x ! j = 0)"
proof -
  have row: "row \<le> n" "length ps = row" using assms by (simp_all add: rref_inv_def)
  from back_prefix[OF assms, of n] obtain x where x:
    "back_loop M row (replicate n 0) [0 ..< n] = Inr x" "length x = n"
    "\<forall>i<row. i < n \<longrightarrow> x ! (ps ! i) = last (M ! i)"
    "\<forall>j<n. (\<forall>i<row. i < n \<longrightarrow> ps ! i \<noteq> j) \<longrightarrow> x ! j = 0"
    by auto
  have "x ! (ps ! k) = last (M ! k)" if "k < row" for k using x(3) that row by simp
  moreover have "x ! j = 0" if "j < n" "j \<notin> set ps" for j
  proof -
    have "ps ! i \<noteq> j" if "i < row" for i using \<open>j \<notin> set ps\<close> that row(2) by auto
    then show ?thesis using x(4) \<open>j < n\<close> by simp
  qed
  ultimately show ?thesis using x(1,2) by (auto simp: back_substitution_def)
qed

section \<open>The returned vector solves the system\<close>

lemma sat_row_split:
  assumes "length x = n"
  shows "sat_row mrow x \<longleftrightarrow> even ((\<Sum>j<n. mrow ! j * x ! j) + mrow ! n)"
proof -
  have "(\<Sum>j<n. mrow ! j * (x @ [1]) ! j) = (\<Sum>j<n. mrow ! j * x ! j)"
    using assms by (intro sum.cong) (simp_all add: nth_append)
  moreover have "(x @ [1]) ! n = 1" using assms by (simp add: nth_append)
  ultimately show ?thesis using assms by (simp add: sat_row_def)
qed

lemma hstack_nth:
  assumes "length A = n" "length b = n" "i < n"
  shows "hstack A b ! i = A ! i @ [b ! i]"
  using assms by (simp add: hstack_def)

lemma aug_hstack:
  assumes "bit_matrix n A" "length b = n" "bits b"
  shows "aug_matrix n (hstack A b)"
proof -
  have len: "length A = n" using assms(1) by (simp add: bit_matrix_def)
  have "length (hstack A b ! r) = Suc n \<and> bits (hstack A b ! r)" if "r < n" for r
  proof -
    have "length (A ! r) = n" "bits (A ! r)"
      using assms(1) that by (simp_all add: bit_matrix_def list_all_length)
    moreover have "b ! r = 0 \<or> b ! r = 1" using assms(2,3) that by (simp add: bits_nth)
    ultimately show ?thesis using hstack_nth[OF len assms(2) that] by (auto simp: bits_def)
  qed
  moreover have "length (hstack A b) = n" using len assms(2) by (simp add: hstack_def)
  ultimately show ?thesis by (simp add: aug_matrix_def)
qed

lemma sat_hstack:
  assumes "bit_matrix n A" "length b = n" "bits b" "length x = n"
  shows "sat_all n (hstack A b) x \<longleftrightarrow> (\<forall>i<n. (\<Sum>j<n. A ! i ! j * x ! j) mod 2 = b ! i)"
proof -
  have len: "length A = n" using assms(1) by (simp add: bit_matrix_def)
  have "sat_row (hstack A b ! i) x \<longleftrightarrow> (\<Sum>j<n. A ! i ! j * x ! j) mod 2 = b ! i" if "i < n" for i
  proof -
    have li: "length (A ! i) = n" using assms(1) that by (simp add: bit_matrix_def list_all_length)
    have bi: "b ! i = 0 \<or> b ! i = 1" using assms(2,3) that by (simp add: bits_nth)
    have "(\<Sum>j<n. (A ! i @ [b ! i]) ! j * x ! j) = (\<Sum>j<n. A ! i ! j * x ! j)"
      using li by (intro sum.cong) (simp_all add: nth_append)
    moreover have "(A ! i @ [b ! i]) ! n = b ! i" using li by (simp add: nth_append)
    ultimately have "sat_row (hstack A b ! i) x
        \<longleftrightarrow> even ((\<Sum>j<n. A ! i ! j * x ! j) + b ! i)"
      using sat_row_split[OF assms(4), of "A ! i @ [b ! i]"] hstack_nth[OF len assms(2) that]
      by simp
    also have "\<dots> \<longleftrightarrow> (\<Sum>j<n. A ! i ! j * x ! j) mod 2 = b ! i"
      using bi by presburger
    finally show ?thesis .
  qed
  then show ?thesis by (simp add: sat_all_def)
qed

lemma solves_iff:
  assumes "bit_matrix n A" "length b = n" "bits b"
  shows "solves A b x \<longleftrightarrow> length x = n \<and> bits x \<and> sat_all n (hstack A b) x"
  using assms sat_hstack[OF assms] by (auto simp: solves_def)

lemma pivot_row_sum:
  assumes inv: "rref_inv n n M row ps" and len: "length x = n" and k: "k < row"
    and piv: "x ! (ps ! k) = last (M ! k)" and free: "\<forall>j<n. j \<notin> set ps \<longrightarrow> x ! j = 0"
  shows "(\<Sum>j<n. M ! k ! j * x ! j) = M ! k ! n"
proof -
  have kn: "k < n" and lps: "length ps = row" using inv k by (simp_all add: rref_inv_def)
  have q: "ps ! k < n" using inv k by (simp add: rref_pivot_lt)
  have one: "M ! k ! (ps ! k) = 1" using inv k by (simp add: rref_inv_def)
  have other: "M ! k ! (ps ! i) = 0" if "i < row" "i \<noteq> k" for i
    using inv that kn by (simp add: rref_inv_def)
  have tm: "M ! k ! j * x ! j = (if j = ps ! k then M ! k ! n else 0)" if "j < n" for j
  proof (cases "j = ps ! k")
    case True
    then show ?thesis using one piv rref_last[OF inv kn] by simp
  next
    case False
    show ?thesis
    proof (cases "j \<in> set ps")
      case True
      then obtain i where i: "i < row" "ps ! i = j" using lps by (auto simp: in_set_conv_nth)
      then have "i \<noteq> k" using False by auto
      then show ?thesis using other[OF i(1)] i(2) False by simp
    next
      case False
      then show ?thesis using free that \<open>j \<noteq> ps ! k\<close> by simp
    qed
  qed
  have "(\<Sum>j<n. M ! k ! j * x ! j) = (\<Sum>j<n. if j = ps ! k then M ! k ! n else 0)"
    using tm by (intro sum.cong) simp_all
  also have "\<dots> = M ! k ! n" using q by simp
  finally show ?thesis .
qed

lemma zero_one_row_iff:
  assumes "rref_inv n c M row ps" "r < n"
  shows "zero_one_row (M ! r) \<longleftrightarrow> M ! r ! n = 1 \<and> (\<forall>j<n. M ! r ! j = 0)"
  using rref_last[OF assms] rref_butlast[OF assms]
  by (auto simp: zero_one_row_def list_all_length)

lemma inconsistent_iff:
  "inconsistent n M row \<longleftrightarrow> (\<exists>r. row \<le> r \<and> r < n \<and> zero_one_row (M ! r))"
  by (auto simp: inconsistent_def list_ex_iff)

lemma final_solution:
  assumes inv: "rref_inv n n M row ps" and len: "length x = n"
    and piv: "\<forall>k<row. x ! (ps ! k) = last (M ! k)" and free: "\<forall>j<n. j \<notin> set ps \<longrightarrow> x ! j = 0"
    and ok: "\<not> inconsistent n M row"
  shows "sat_all n M x \<and> bits x"
proof
  have am: "aug_matrix n M" using inv by (simp add: rref_inv_def)
  show "sat_all n M x" unfolding sat_all_def
  proof (intro allI impI)
    fix r assume r: "r < n"
    show "sat_row (M ! r) x"
    proof (cases "r < row")
      case True
      have "(\<Sum>j<n. M ! r ! j * x ! j) = M ! r ! n"
        using inv len True _ free by (rule pivot_row_sum) (simp add: piv True)
      then show ?thesis using sat_row_split[OF len, of "M ! r"] by simp
    next
      case False
      then have zero: "\<forall>j<n. M ! r ! j = 0" using inv r by (simp add: rref_inv_def)
      have "\<not> zero_one_row (M ! r)" using ok False r by (simp add: inconsistent_iff)
      then have "M ! r ! n \<noteq> 1" using zero zero_one_row_iff[OF inv r] by simp
      then have "M ! r ! n = 0" using aug_matrix_entry[OF am r, of n] by simp
      then show ?thesis using zero sat_row_split[OF len, of "M ! r"] by simp
    qed
  qed
  have lps: "length ps = row" and rn: "row \<le> n" using inv by (simp_all add: rref_inv_def)
  have "x ! j = 0 \<or> x ! j = 1" if "j < n" for j
  proof (cases "j \<in> set ps")
    case True
    then obtain k where k: "k < row" "ps ! k = j" using lps by (auto simp: in_set_conv_nth)
    then have "k < n" using rn by simp
    then have "M ! k ! n = 0 \<or> M ! k ! n = 1" using aug_matrix_entry[OF am, of k n] by simp
    then show ?thesis using piv k rref_last[OF inv \<open>k < n\<close>] by auto
  next
    case False
    then show ?thesis using free that by simp
  qed
  then show "bits x" using len by (simp add: bits_nth)
qed

lemma sat_consistent:
  assumes inv: "rref_inv n n M row ps" and len: "length x = n" and sat: "sat_all n M x"
  shows "\<not> inconsistent n M row"
proof
  assume "inconsistent n M row"
  then obtain r where r: "row \<le> r" "r < n" "zero_one_row (M ! r)"
    by (auto simp: inconsistent_iff)
  then have z: "M ! r ! n = 1" "\<forall>j<n. M ! r ! j = 0" using zero_one_row_iff[OF inv r(2)] by simp_all
  have "sat_row (M ! r) x" using sat r(2) by (simp add: sat_all_def)
  then show False using z sat_row_split[OF len, of "M ! r"] by simp
qed

lemma zero_one_row_below:
  assumes inv: "rref_inv n n M row ps" and r: "r < n" and z: "zero_one_row (M ! r)"
  shows "row \<le> r"
proof (rule ccontr)
  assume "\<not> row \<le> r"
  then have k: "r < row" by simp
  have "M ! r ! (ps ! r) = 1" using inv k by (simp add: rref_inv_def)
  moreover have "ps ! r < n" using inv k by (simp add: rref_pivot_lt)
  ultimately show False using z zero_one_row_iff[OF inv r] by auto
qed

lemma solve_gf2_unfold:
  assumes "bit_matrix n A" "length b = n" "forward_trace n (hstack A b) = (M, row, ps)"
  shows "solve_gf2 A b =
           (if inconsistent n M row then Inr None
            else (case back_substitution n M row of Inl e \<Rightarrow> Inl e | Inr x \<Rightarrow> Inr (Some x)))"
proof -
  have len: "length A = n" and rows: "\<forall>arow \<in> set A. length arow = n"
    using assms(1) by (simp_all add: bit_matrix_def list_all_iff)
  have "\<not> list_ex (\<lambda>arow. length arow + 1 < n) A" using rows by (simp add: list_ex_iff)
  then show ?thesis
    using len assms(2) forward_elimination_trace[OF assms(3)] by (simp add: solve_gf2_def)
qed

lemma solve_gf2_cases:
  assumes A: "bit_matrix n A" and lb: "length b = n" and bb: "bits b"
  shows "\<exists>M row ps. forward_trace n (hstack A b) = (M, row, ps) \<and> rref_inv n n M row ps
           \<and> (if inconsistent n M row
               then solve_gf2 A b = Inr None \<and> (\<forall>x. \<not> solves A b x)
               else (\<exists>x. solve_gf2 A b = Inr (Some x) \<and> solves A b x
                         \<and> (\<forall>k<row. x ! (ps ! k) = last (M ! k))
                         \<and> (\<forall>j<n. j \<notin> set ps \<longrightarrow> x ! j = 0)))"
proof -
  from forward_trace_inv[OF aug_hstack[OF A lb bb]] obtain M row ps where
    tr: "forward_trace n (hstack A b) = (M, row, ps)" and inv: "rref_inv n n M row ps"
    and sat: "\<forall>x. length x = n \<longrightarrow> (sat_all n M x \<longleftrightarrow> sat_all n (hstack A b) x)"
    by blast
  note unf = solve_gf2_unfold[OF A lb tr]
  show ?thesis
  proof (cases "inconsistent n M row")
    case True
    have "\<not> solves A b x" for x
    proof
      assume "solves A b x"
      then have "length x = n" "sat_all n (hstack A b) x" using solves_iff[OF A lb bb] by simp_all
      then have "sat_all n M x" using sat by simp
      from sat_consistent[OF inv \<open>length x = n\<close> this] True show False by simp
    qed
    then show ?thesis using tr inv True unf by simp
  next
    case False
    from back_substitution_result[OF inv] obtain x where x:
      "back_substitution n M row = Inr x" "length x = n"
      "\<forall>k<row. x ! (ps ! k) = last (M ! k)" "\<forall>j<n. j \<notin> set ps \<longrightarrow> x ! j = 0"
      by blast
    from final_solution[OF inv x(2,3,4) False] have "sat_all n M x" "bits x" by simp_all
    then have "solves A b x" using sat x(2) solves_iff[OF A lb bb] by simp
    moreover have "solve_gf2 A b = Inr (Some x)" using unf False x(1) by simp
    ultimately show ?thesis using tr inv False x(3,4) by auto
  qed
qed

section \<open>Claims about the solver\<close>

text \<open>
  C3.  For an \<open>n \<times> n\<close> matrix of bits \<open>A\<close> and a vector of \<open>n\<close> bits \<open>b\<close>, \<^verbatim>\<open>_solve_gf2\<close>
  returns \<^verbatim>\<open>None\<close> if and only if, after forward elimination, some row has all its
  coefficient columns equal to 0 and its last column equal to 1.  There is no other
  failure: the call raises nothing, and it returns either \<^verbatim>\<open>None\<close> or a vector \<open>x\<close> that
  solves \<open>A x = b\<close> over GF(2).  (The model is a total function, so the call
  terminates.)
\<close>

theorem solve_gf2_fails_iff:
  assumes "bit_matrix n A" "length b = n" "bits b"
  shows "(solve_gf2 A b = Inr None \<longleftrightarrow>
            (\<exists>r<n. zero_one_row (fst (forward_elimination n (hstack A b)) ! r)))
       \<and> (solve_gf2 A b = Inr None \<or> (\<exists>x. solve_gf2 A b = Inr (Some x) \<and> solves A b x))"
proof -
  from solve_gf2_cases[OF assms] obtain M row ps where
    tr: "forward_trace n (hstack A b) = (M, row, ps)" and inv: "rref_inv n n M row ps"
    and res: "if inconsistent n M row
               then solve_gf2 A b = Inr None \<and> (\<forall>x. \<not> solves A b x)
               else (\<exists>x. solve_gf2 A b = Inr (Some x) \<and> solves A b x
                         \<and> (\<forall>k<row. x ! (ps ! k) = last (M ! k))
                         \<and> (\<forall>j<n. j \<notin> set ps \<longrightarrow> x ! j = 0))"
    by blast
  have fe: "fst (forward_elimination n (hstack A b)) = M"
    using forward_elimination_trace[OF tr] by simp
  have "inconsistent n M row \<longleftrightarrow> (\<exists>r<n. zero_one_row (M ! r))"
    using zero_one_row_below[OF inv] by (auto simp: inconsistent_iff)
  moreover have "solve_gf2 A b = Inr None \<longleftrightarrow> inconsistent n M row"
    using res by (cases "inconsistent n M row") auto
  moreover have "solve_gf2 A b = Inr None \<or> (\<exists>x. solve_gf2 A b = Inr (Some x) \<and> solves A b x)"
    using res by (cases "inconsistent n M row") auto
  ultimately show ?thesis unfolding fe by simp
qed

theorem solve_gf2_fails_iff_witness:
  "bit_matrix 2 [[1, 1], [1, 1]] \<and> length [1, 0 :: int] = 2 \<and> bits [1, 0]
   \<and> (solve_gf2 [[1, 1], [1, 1]] [1, 0] = Inr None \<longleftrightarrow>
         (\<exists>r<2. zero_one_row (fst (forward_elimination 2 (hstack [[1, 1], [1, 1]] [1, 0])) ! r)))
   \<and> (solve_gf2 [[1, 1], [1, 1]] [1, 0] = Inr None
        \<or> (\<exists>x. solve_gf2 [[1, 1], [1, 1]] [1, 0] = Inr (Some x)
                \<and> solves [[1, 1], [1, 1]] [1, 0] x))"
proof -
  have h1: "bit_matrix 2 [[1, 1], [1, 1]]" by (simp add: bit_matrix_def bits_def)
  have h2: "length [1, 0 :: int] = 2" by simp
  have h3: "bits [1, 0]" by (simp add: bits_def)
  show ?thesis using h1 h2 h3 solve_gf2_fails_iff[OF h1 h2 h3] by blast
qed

text \<open>
  C4.  When \<^verbatim>\<open>_solve_gf2\<close> succeeds on an \<open>n \<times> n\<close> system of bits, the returned vector has
  length \<open>n\<close>, is 0 at every column that got no pivot, and at the pivot column of row \<open>k\<close>
  (for each \<open>k\<close> below the final \<^verbatim>\<open>row\<close>) equals the last entry of row \<open>k\<close> of the
  eliminated matrix; so the entries equal to 1 lie in pivot columns.
\<close>

theorem solve_gf2_support:
  assumes "bit_matrix n A" "length b = n" "bits b" "solve_gf2 A b = Inr (Some x)"
  shows "length x = n
       \<and> length (pivot_columns n (hstack A b)) = snd (forward_elimination n (hstack A b))
       \<and> (\<forall>j<n. j \<notin> set (pivot_columns n (hstack A b)) \<longrightarrow> x ! j = 0)
       \<and> (\<forall>k<snd (forward_elimination n (hstack A b)).
             x ! (pivot_columns n (hstack A b) ! k)
               = last (fst (forward_elimination n (hstack A b)) ! k))
       \<and> {j. j < n \<and> x ! j = 1} \<subseteq> set (pivot_columns n (hstack A b))"
proof -
  from solve_gf2_cases[OF assms(1-3)] obtain M row ps where
    tr: "forward_trace n (hstack A b) = (M, row, ps)" and inv: "rref_inv n n M row ps"
    and res: "if inconsistent n M row
               then solve_gf2 A b = Inr None \<and> (\<forall>x. \<not> solves A b x)
               else (\<exists>x. solve_gf2 A b = Inr (Some x) \<and> solves A b x
                         \<and> (\<forall>k<row. x ! (ps ! k) = last (M ! k))
                         \<and> (\<forall>j<n. j \<notin> set ps \<longrightarrow> x ! j = 0))"
    by blast
  have fe: "forward_elimination n (hstack A b) = (M, row)"
    using forward_elimination_trace[OF tr] .
  have pc: "pivot_columns n (hstack A b) = ps" using tr by (simp add: pivot_columns_def)
  have ok: "\<not> inconsistent n M row" using res assms(4) by auto
  then have x: "solves A b x" "\<forall>k<row. x ! (ps ! k) = last (M ! k)"
    "\<forall>j<n. j \<notin> set ps \<longrightarrow> x ! j = 0"
    using res assms(4) by auto
  have "length x = n" using x(1) assms(2) by (simp add: solves_def)
  moreover have "length ps = row" using inv by (simp add: rref_inv_def)
  moreover have "{j. j < n \<and> x ! j = 1} \<subseteq> set ps" using x(3) by auto
  ultimately show ?thesis unfolding fe pc using x(2,3) by simp
qed

theorem solve_gf2_support_witness:
  "bit_matrix 3 [[0, 1, 1], [0, 1, 1], [0, 0, 0]] \<and> length [1, 1, 0 :: int] = 3
   \<and> bits [1, 1, 0]
   \<and> solve_gf2 [[0, 1, 1], [0, 1, 1], [0, 0, 0]] [1, 1, 0] = Inr (Some [0, 1, 0])
   \<and> length [0, 1, 0 :: int] = 3
   \<and> length (pivot_columns 3 (hstack [[0, 1, 1], [0, 1, 1], [0, 0, 0]] [1, 1, 0]))
        = snd (forward_elimination 3 (hstack [[0, 1, 1], [0, 1, 1], [0, 0, 0]] [1, 1, 0]))
   \<and> list_all (\<lambda>j. j \<in> set (pivot_columns 3 (hstack [[0, 1, 1], [0, 1, 1], [0, 0, 0]] [1, 1, 0]))
                    \<or> [0, 1, 0 :: int] ! j = 0) [0 ..< 3]
   \<and> list_all (\<lambda>k. [0, 1, 0] ! (pivot_columns 3 (hstack [[0, 1, 1], [0, 1, 1], [0, 0, 0]] [1, 1, 0]) ! k)
           = last (fst (forward_elimination 3
                          (hstack [[0, 1, 1], [0, 1, 1], [0, 0, 0]] [1, 1, 0])) ! k))
        [0 ..< snd (forward_elimination 3 (hstack [[0, 1, 1], [0, 1, 1], [0, 0, 0]] [1, 1, 0]))]
   \<and> {j. j < 3 \<and> [0, 1, 0 :: int] ! j = 1}
        \<subseteq> set (pivot_columns 3 (hstack [[0, 1, 1], [0, 1, 1], [0, 0, 0]] [1, 1, 0]))"
proof -
  have h1: "bit_matrix 3 [[0, 1, 1], [0, 1, 1], [0, 0, 0]]" by (simp add: bit_matrix_def bits_def)
  have h2: "length [1, 1, 0 :: int] = 3" by simp
  have h3: "bits [1, 1, 0]" by (simp add: bits_def)
  have h4: "solve_gf2 [[0, 1, 1], [0, 1, 1], [0, 0, 0]] [1, 1, 0] = Inr (Some [0, 1, 0])"
    by code_simp
  note t = solve_gf2_support[OF h1 h2 h3 h4]
  have c1: "list_all (\<lambda>j. j \<in> set (pivot_columns 3 (hstack [[0, 1, 1], [0, 1, 1], [0, 0, 0]] [1, 1, 0]))
                    \<or> [0, 1, 0 :: int] ! j = 0) [0 ..< 3]"
    using t unfolding list_all_iff by auto
  have c2: "list_all (\<lambda>k. [0, 1, 0] ! (pivot_columns 3 (hstack [[0, 1, 1], [0, 1, 1], [0, 0, 0]] [1, 1, 0]) ! k)
           = last (fst (forward_elimination 3
                          (hstack [[0, 1, 1], [0, 1, 1], [0, 0, 0]] [1, 1, 0])) ! k))
        [0 ..< snd (forward_elimination 3 (hstack [[0, 1, 1], [0, 1, 1], [0, 0, 0]] [1, 1, 0]))]"
    using t unfolding list_all_iff by auto
  show ?thesis using h1 h2 h3 h4 t c1 c2 by blast
qed

section \<open>Presses and solutions\<close>

lemma concat_uniform_length:
  "\<forall>grow \<in> set g. length grow = n \<Longrightarrow> length (concat g) = length g * n"
  by (induction g) simp_all

lemma concat_uniform_nth:
  "\<forall>grow \<in> set g. length grow = n \<Longrightarrow> i < length g \<Longrightarrow> j < n \<Longrightarrow>
     concat g ! (i * n + j) = g ! i ! j"
proof (induction g arbitrary: i)
  case Nil
  then show ?case by simp
next
  case (Cons grow g)
  show ?case
  proof (cases i)
    case 0
    then show ?thesis using Cons.prems by (simp add: nth_append)
  next
    case (Suc i')
    have "concat (grow # g) ! (i * n + j) = concat g ! (i' * n + j)"
      using Cons.prems(1) Suc by (simp add: nth_append)
    then show ?thesis using Cons.IH[of i'] Cons.prems Suc by simp
  qed
qed

lemma is_grid_rows: "is_grid n g \<Longrightarrow> \<forall>grow \<in> set g. length grow = n"
  by (simp add: is_grid_def list_all_iff)

lemma concat_grid_length: "is_grid n g \<Longrightarrow> length (concat g) = n * n"
  using concat_uniform_length[OF is_grid_rows, of n g] by (simp add: is_grid_def)

lemma div_mod_in_range:
  fixes i n :: nat
  assumes "i < n * n"
  shows "i div n < n \<and> i mod n < n"
proof -
  have "0 < n" using assms by (cases n) simp_all
  then show ?thesis using assms by (simp add: less_mult_imp_div_less)
qed

lemma concat_grid_nth:
  assumes "is_grid n g" "i < n * n"
  shows "concat g ! i = g ! (i div n) ! (i mod n)"
proof -
  have "i div n < length g" "i mod n < n"
    using div_mod_in_range[OF assms(2)] assms(1) by (simp_all add: is_grid_def)
  from concat_uniform_nth[OF is_grid_rows[OF assms(1)] this] show ?thesis by simp
qed

lemma bit_grid_entry:
  assumes "bit_grid n g" "i < n" "j < n"
  shows "g ! i ! j = 0 \<or> g ! i ! j = 1"
  using assms by (auto simp: bit_grid_def is_grid_def bits_def list_all_length)

lemma bit_grid_concat:
  assumes "bit_grid n g"
  shows "length (concat g) = n * n \<and> bits (concat g)"
proof -
  have ig: "is_grid n g" using assms by (simp add: bit_grid_def)
  have "concat g ! i = 0 \<or> concat g ! i = 1" if "i < n * n" for i
    using concat_grid_nth[OF ig that] bit_grid_entry[OF assms] div_mod_in_range[OF that] by simp
  then show ?thesis using concat_grid_length[OF ig] by (simp add: bits_nth)
qed

lemma build_bit_matrix: "bit_matrix (n * n) (build_transition_matrix n)"
proof -
  have "length (build_transition_matrix n ! i) = n * n \<and> bits (build_transition_matrix n ! i)"
    if "i < n * n" for i
    using that build_entry[OF that] by (simp add: build_nth build_row_length bits_nth)
  then show ?thesis
    by (simp add: bit_matrix_def list_all_length build_transition_matrix_def)
qed

lemma apply_move_bits:
  assumes "bit_grid n g" "0 \<le> row" "row < int n" "0 \<le> col" "col < int n"
  shows "\<exists>g'. apply_move n g row col = Inr g' \<and> bit_grid n g'
           \<and> (\<forall>i<n. \<forall>j<n. g' ! i ! j =
                 (if reaches (row, col) (int i, int j) then 1 - g ! i ! j else g ! i ! j))"
proof -
  have ig: "is_grid n g" using assms(1) by (simp add: bit_grid_def)
  from apply_move_in_range[OF ig assms(2-5)] obtain g' where g':
    "apply_move n g row col = Inr g'" "is_grid n g'"
    "\<forall>i<n. \<forall>j<n. g' ! i ! j =
        (if reaches (row, col) (int i, int j) then 1 - g ! i ! j else g ! i ! j)"
    by blast
  have "g' ! i ! j = 0 \<or> g' ! i ! j = 1" if "i < n" "j < n" for i j
    using g'(3) bit_grid_entry[OF assms(1) that] that by auto
  then have "bit_grid n g'"
    using g'(2) by (auto simp: bit_grid_def is_grid_def bits_def list_all_length)
  then show ?thesis using g'(1,3) by blast
qed

lemma sum_list_update:
  fixes f :: "nat \<Rightarrow> int"
  assumes "k < N" "length x = N"
  shows "(\<Sum>j<N. f j * x[k := v] ! j) = (\<Sum>j<N. f j * x ! j) + f k * (v - x ! k)"
proof -
  have "(\<Sum>j<N. f j * x[k := v] ! j)
          = (\<Sum>j<N. f j * x ! j + (if j = k then f k * (v - x ! k) else 0))"
    using assms by (intro sum.cong) (auto simp: nth_list_update algebra_simps)
  also have "\<dots> = (\<Sum>j<N. f j * x ! j) + (\<Sum>j<N. if j = k then f k * (v - x ! k) else 0)"
    by (rule sum.distrib)
  also have "(\<Sum>j<N. if j = k then f k * (v - x ! k) else 0) = f k * (v - x ! k)"
    using assms(1) by simp
  finally show ?thesis .
qed

lemma press_solution:
  assumes bg: "bit_grid n g" and rng: "0 \<le> r" "r < int n" "0 \<le> c" "c < int n"
    and sol: "solves (build_transition_matrix n) (concat g) x"
  shows "\<exists>g'. apply_move n g r c = Inr g' \<and> bit_grid n g'
           \<and> solves (build_transition_matrix n) (concat g')
                (x[nat (pos_to_idx n r c) := 1 - x ! nat (pos_to_idx n r c)])"
proof -
  let ?A = "build_transition_matrix n"
  let ?N = "n * n"
  let ?k = "nat (pos_to_idx n r c)"
  let ?x' = "x[?k := 1 - x ! ?k]"
  from apply_move_bits[OF bg rng] obtain g' where g':
    "apply_move n g r c = Inr g'" "bit_grid n g'"
    "\<forall>i<n. \<forall>j<n. g' ! i ! j =
        (if reaches (r, c) (int i, int j) then 1 - g ! i ! j else g ! i ! j)"
    by blast
  have ig: "is_grid n g" "is_grid n g'" using bg g'(2) by (simp_all add: bit_grid_def)
  have k: "?k < ?N" "idx_to_pos n ?k = (r, c)" using cell_index_lt[OF rng] by simp_all
  have lb: "length (concat g) = ?N" using concat_grid_length[OF ig(1)] .
  have lb': "length (concat g') = ?N" using concat_grid_length[OF ig(2)] .
  have lx: "length x = ?N" and bx: "bits x"
    and eqs: "\<forall>i<?N. (\<Sum>j<?N. ?A ! i ! j * x ! j) mod 2 = concat g ! i"
    using sol lb by (simp_all add: solves_def)
  have xk: "x ! ?k = 0 \<or> x ! ?k = 1" using bx lx k(1) by (simp add: bits_nth)
  have "?x' ! j = 0 \<or> ?x' ! j = 1" if "j < length x" for j
  proof (cases "j = ?k")
    case True
    then show ?thesis using xk that by auto
  next
    case False
    then show ?thesis using bx that by (simp add: bits_nth)
  qed
  then have bx': "bits ?x'" by (simp add: bits_nth)
  have row_eq: "(\<Sum>j<?N. ?A ! i ! j * ?x' ! j) mod 2 = concat g' ! i" if i: "i < ?N" for i
  proof -
    let ?a = "?A ! i ! ?k"
    let ?S = "\<Sum>j<?N. ?A ! i ! j * x ! j"
    note dm = div_mod_in_range[OF i]
    have pos_i: "idx_to_pos n i = (int (i div n), int (i mod n))" by (simp add: idx_to_pos_def)
    have a: "?a = (if reaches (r, c) (int (i div n), int (i mod n)) then 1 else 0)"
      using build_entry[OF i k(1)] k(2) pos_i reaches_sym[of "(r, c)"] by simp
    have old: "concat g ! i = g ! (i div n) ! (i mod n)" using concat_grid_nth[OF ig(1) i] .
    have new: "concat g' ! i = g' ! (i div n) ! (i mod n)" using concat_grid_nth[OF ig(2) i] .
    have bit: "concat g ! i = 0 \<or> concat g ! i = 1"
      using old bit_grid_entry[OF bg] dm by simp
    have "g' ! (i div n) ! (i mod n) =
        (if reaches (r, c) (int (i div n), int (i mod n)) then 1 - g ! (i div n) ! (i mod n)
         else g ! (i div n) ! (i mod n))"
      using g'(3) dm by simp
    then have tgt: "concat g' ! i = (concat g ! i + ?a) mod 2"
      using a old new bit by auto
    have "(\<Sum>j<?N. ?A ! i ! j * ?x' ! j) = ?S + ?a * ((1 - x ! ?k) - x ! ?k)"
      using k(1) lx by (rule sum_list_update)
    also have "\<dots> = ?S + ?a - 2 * (?a * x ! ?k)" by (simp add: algebra_simps)
    finally have "(\<Sum>j<?N. ?A ! i ! j * ?x' ! j) mod 2 = (?S + ?a) mod 2"
      by presburger
    also have "\<dots> = (?S mod 2 + ?a) mod 2" by presburger
    also have "\<dots> = (concat g ! i + ?a) mod 2" using eqs i by simp
    finally show ?thesis using tgt by simp
  qed
  have "solves ?A (concat g') ?x'"
    using lx lb' bx' row_eq by (simp add: solves_def)
  then show ?thesis using g'(1,2) by blast
qed

lemma solve_gf2_sound:
  assumes "bit_matrix n A" "length b = n" "bits b" "solve_gf2 A b = Inr (Some x)"
  shows "solves A b x"
proof -
  from solve_gf2_cases[OF assms(1-3)] obtain M row ps where
    res: "if inconsistent n M row
               then solve_gf2 A b = Inr None \<and> (\<forall>x. \<not> solves A b x)
               else (\<exists>x. solve_gf2 A b = Inr (Some x) \<and> solves A b x
                         \<and> (\<forall>k<row. x ! (ps ! k) = last (M ! k))
                         \<and> (\<forall>j<n. j \<notin> set ps \<longrightarrow> x ! j = 0))"
    by blast
  then show ?thesis using assms(4) by (cases "inconsistent n M row") auto
qed

lemma solve_gf2_complete:
  assumes "bit_matrix n A" "length b = n" "bits b" "solves A b x"
  shows "\<exists>x'. solve_gf2 A b = Inr (Some x')"
proof -
  from solve_gf2_cases[OF assms(1-3)] obtain M row ps where
    res: "if inconsistent n M row
               then solve_gf2 A b = Inr None \<and> (\<forall>x. \<not> solves A b x)
               else (\<exists>x. solve_gf2 A b = Inr (Some x) \<and> solves A b x
                         \<and> (\<forall>k<row. x ! (ps ! k) = last (M ! k))
                         \<and> (\<forall>j<n. j \<notin> set ps \<longrightarrow> x ! j = 0))"
    by blast
  then show ?thesis using assms(4) by (cases "inconsistent n M row") auto
qed

lemma not_ragged: "is_grid n g \<Longrightarrow> \<not> ragged g"
proof -
  assume ig: "is_grid n g"
  show "\<not> ragged g"
  proof (cases g)
    case Nil
    then show ?thesis by (simp add: ragged_def)
  next
    case (Cons grow rest)
    then show ?thesis using is_grid_rows[OF ig] by (simp add: ragged_def list_ex_iff)
  qed
qed

lemma solve_Some:
  assumes "bit_grid n g" "solve n g = Inr (Some moves)"
  shows "\<exists>x. solves (build_transition_matrix n) (concat g) x \<and> moves = moves_of n x"
proof -
  have ig: "is_grid n g" using assms(1) by (simp add: bit_grid_def)
  note nr = not_ragged[OF ig]
  from assms(2) nr obtain x where x:
    "solve_gf2 (build_transition_matrix n) (concat g) = Inr (Some x)" "moves = moves_of n x"
    by (auto simp: solve_def split: sum.splits option.splits)
  have "solves (build_transition_matrix n) (concat g) x"
    using build_bit_matrix bit_grid_concat[OF assms(1)] x(1)
    by (intro solve_gf2_sound[of "n * n"]) simp_all
  then show ?thesis using x(2) by blast
qed

lemma solve_solvable:
  assumes "bit_grid n g" "solves (build_transition_matrix n) (concat g) x"
  shows "\<exists>moves. solve n g = Inr (Some moves)"
proof -
  have ig: "is_grid n g" using assms(1) by (simp add: bit_grid_def)
  have "\<exists>x'. solve_gf2 (build_transition_matrix n) (concat g) = Inr (Some x')"
    using build_bit_matrix bit_grid_concat[OF assms(1)] assms(2)
    by (intro solve_gf2_complete[of "n * n"]) simp_all
  then show ?thesis using not_ragged[OF ig] by (auto simp: solve_def)
qed

lemma idx_to_pos_inj: "inj_on (idx_to_pos n) {..<n * n}"
proof (rule inj_on_inverseI)
  fix i assume "i \<in> {..<n * n}"
  show "nat (pos_to_idx n (fst (idx_to_pos n i)) (snd (idx_to_pos n i))) = i"
    by (simp add: pos_to_idx_inverse)
qed

lemma moves_of_set:
  "length x = N \<Longrightarrow> set (moves_of n x) = idx_to_pos n ` {i. i < N \<and> x ! i = 1}"
  by (auto simp: moves_of_def)

lemma moves_of_distinct:
  assumes "length x = n * n"
  shows "distinct (moves_of n x)"
proof -
  have "inj_on (idx_to_pos n) (set (filter (\<lambda>i. x ! i = 1) [0 ..< length x]))"
    using assms by (intro inj_on_subset[OF idx_to_pos_inj]) auto
  then show ?thesis by (simp add: moves_of_def distinct_map)
qed

lemma zero_solution_solved:
  assumes bg: "bit_grid n g" and sol: "solves (build_transition_matrix n) (concat g) x"
    and none: "\<forall>i<n * n. x ! i \<noteq> 1"
  shows "is_solved g"
proof -
  have ig: "is_grid n g" using bg by (simp add: bit_grid_def)
  have lb: "length (concat g) = n * n" using concat_grid_length[OF ig] .
  have lx: "length x = n * n" and bx: "bits x"
    and eqs: "\<forall>i<n * n. (\<Sum>j<n * n. build_transition_matrix n ! i ! j * x ! j) mod 2 = concat g ! i"
    using sol lb by (simp_all add: solves_def)
  have x0: "x ! j = 0" if "j < n * n" for j
    using bx lx none that by (auto simp: bits_nth)
  have b0: "concat g ! i = 0" if "i < n * n" for i
  proof -
    have z: "(\<Sum>j<n * n. build_transition_matrix n ! i ! j * x ! j) = 0"
      using x0 by (intro sum.neutral) simp
    have "(\<Sum>j<n * n. build_transition_matrix n ! i ! j * x ! j) mod 2 = concat g ! i"
      using eqs that by blast
    then show ?thesis unfolding z by simp
  qed
  have "g ! i ! j = 0" if "i < n" "j < n" for i j
  proof -
    have "i * n + j < i * n + n" using that(2) by simp
    also have "\<dots> = Suc i * n" by simp
    also have "\<dots> \<le> n * n" using that(1) by (intro mult_le_mono1) simp
    finally have lt: "i * n + j < n * n" .
    have "concat g ! (i * n + j) = g ! i ! j"
      using concat_uniform_nth[OF is_grid_rows[OF ig], of i j] ig that by (simp add: is_grid_def)
    then show ?thesis using b0[OF lt] by simp
  qed
  then show ?thesis using ig by (simp add: is_solved_def is_grid_def list_all_length)
qed

lemma apply_moves_solved:
  assumes "bit_grid n g" "solves (build_transition_matrix n) (concat g) x" "distinct ms"
    and "set ms = idx_to_pos n ` {i. i < n * n \<and> x ! i = 1}"
  shows "\<exists>g'. apply_moves n g ms = Inr g' \<and> is_solved g'"
  using assms
proof (induction ms arbitrary: g x)
  case Nil
  then have "\<forall>i<n * n. x ! i \<noteq> 1" by auto
  from zero_solution_solved[OF Nil.prems(1,2) this] show ?case by simp
next
  case (Cons m ms)
  let ?S = "{i. i < n * n \<and> x ! i = 1}"
  have "m \<in> idx_to_pos n ` ?S" using Cons.prems(4) by auto
  then obtain k where k: "k < n * n" "x ! k = 1" "m = idx_to_pos n k" by auto
  have rng: "0 \<le> fst m" "fst m < int n" "0 \<le> snd m" "snd m < int n"
    using idx_to_pos_in_range[OF k(1)] k(3) by simp_all
  have kk: "nat (pos_to_idx n (fst m) (snd m)) = k" unfolding k(3) by (simp add: pos_to_idx_inverse)
  let ?x' = "x[k := 0]"
  from press_solution[OF Cons.prems(1) rng Cons.prems(2)] obtain g1 where g1:
    "apply_move n g (fst m) (snd m) = Inr g1" "bit_grid n g1"
    "solves (build_transition_matrix n) (concat g1) ?x'"
    unfolding kk using k(2) by auto
  have lx: "length x = n * n"
    using Cons.prems(1,2) bit_grid_concat by (simp add: solves_def)
  have "?x' ! i = 1 \<longleftrightarrow> x ! i = 1 \<and> i \<noteq> k" if "i < n * n" for i
    using lx that by (cases "i = k") simp_all
  then have S': "{i. i < n * n \<and> ?x' ! i = 1} = ?S - {k}" by auto
  have "set ms = set (m # ms) - {m}" using Cons.prems(3) by auto
  also have "\<dots> = idx_to_pos n ` ?S - idx_to_pos n ` {k}" using Cons.prems(4) k(3) by simp
  also have "\<dots> = idx_to_pos n ` (?S - {k})"
    using k(1) by (intro inj_on_image_set_diff[OF idx_to_pos_inj, symmetric]) auto
  finally have "set ms = idx_to_pos n ` {i. i < n * n \<and> ?x' ! i = 1}" using S' by simp
  moreover have "distinct ms" using Cons.prems(3) by simp
  ultimately obtain g' where "apply_moves n g1 ms = Inr g'" "is_solved g'"
    using Cons.IH[OF g1(2,3)] by blast
  then show ?case using g1(1) by simp
qed

section \<open>Claims about solving a puzzle\<close>

text \<open>
  C1.  For every \<open>n \<times> n\<close> grid \<open>g\<close> of 0/1 values: if \<^verbatim>\<open>solve(g)\<close> returns a move list, then
  applying \<^verbatim>\<open>apply_move\<close> for every move of the list, in any order (any list \<open>ms\<close> that is a
  permutation of the returned one), succeeds and ends in a grid on which \<^verbatim>\<open>is_solved\<close> is
  true.
\<close>

theorem solve_moves_solve_grid:
  assumes "bit_grid n g" "solve n g = Inr (Some moves)" "mset ms = mset moves"
  shows "\<exists>g'. apply_moves n g ms = Inr g' \<and> is_solved g'"
proof -
  from solve_Some[OF assms(1,2)] obtain x where
    x: "solves (build_transition_matrix n) (concat g) x" "moves = moves_of n x"
    by blast
  have lx: "length x = n * n"
    using assms(1) x(1) bit_grid_concat by (simp add: solves_def)
  have "distinct moves" unfolding x(2) using lx by (rule moves_of_distinct)
  then have d: "distinct ms" using assms(3) mset_eq_imp_distinct_iff by blast
  have "set ms = set moves" using assms(3) by (rule mset_eq_setD)
  then have s: "set ms = idx_to_pos n ` {i. i < n * n \<and> x ! i = 1}"
    unfolding x(2) using moves_of_set[OF lx] by simp
  from apply_moves_solved[OF assms(1) x(1) d s] show ?thesis .
qed

theorem solve_moves_solve_grid_witness:
  "bit_grid 3 [[0, 0, 0], [0, 1, 0], [0, 0, 0]]
   \<and> solve 3 [[0, 0, 0], [0, 1, 0], [0, 0, 0]]
        = Inr (Some [(0, 1), (1, 0), (1, 1), (1, 2), (2, 1)])
   \<and> mset [(2, 1), (1, 1), (0, 1), (1, 2), (1, 0)]
        = mset [(0, 1), (1, 0), (1, 1), (1, 2), (2, 1 :: int) :: int \<times> int]
   \<and> (\<exists>g'. apply_moves 3 [[0, 0, 0], [0, 1, 0], [0, 0, 0]]
               [(2, 1), (1, 1), (0, 1), (1, 2), (1, 0)] = Inr g'
           \<and> is_solved g')"
proof -
  have h1: "bit_grid 3 [[0, 0, 0], [0, 1, 0], [0, 0, 0]]"
    by (simp add: bit_grid_def is_grid_def bits_def)
  have h2: "solve 3 [[0, 0, 0], [0, 1, 0], [0, 0, 0]]
              = Inr (Some [(0, 1), (1, 0), (1, 1), (1, 2), (2, 1)])"
    by code_simp
  have h3: "mset [(2, 1), (1, 1), (0, 1), (1, 2), (1, 0)]
              = mset [(0, 1), (1, 0), (1, 1), (1, 2), (2, 1 :: int) :: int \<times> int]"
    by simp
  show ?thesis using h1 h2 h3 solve_moves_solve_grid[OF h1 h2 h3] by blast
qed

section \<open>Properties of generated puzzles\<close>

lemma apply_moves_snoc:
  "apply_moves sz g (ms @ [m]) =
     (case apply_moves sz g ms of Inl e \<Rightarrow> Inl e | Inr g' \<Rightarrow> apply_move sz g' (fst m) (snd m))"
  by (induction ms arbitrary: g) (simp_all split: sum.splits)

lemma zero_grid_bit_grid: "bit_grid n (replicate n (replicate n 0))"
  by (simp add: bit_grid_def is_grid_def bits_def list_all_length)

lemma zero_grid_solves:
  "solves (build_transition_matrix n) (concat (replicate n (replicate n 0))) (replicate (n * n) 0)"
proof -
  let ?g = "replicate n (replicate n (0::int))"
  have ig: "is_grid n ?g" using zero_grid_bit_grid[of n] by (simp add: bit_grid_def)
  have lb: "length (concat ?g) = n * n" using concat_grid_length[OF ig] .
  have "concat ?g ! i = 0" if "i < n * n" for i
    using concat_grid_nth[OF ig that] div_mod_in_range[OF that] by simp
  then show ?thesis using lb by (simp add: solves_def bits_def list_all_length)
qed

lemma counter_rng_ok: "rng_ok counter_rng"
proof -
  have "lo \<le> lo + st mod (hi - lo) \<and> lo + st mod (hi - lo) < hi" if "lo < hi" for lo hi st :: int
  proof -
    have "0 < hi - lo" using that by simp
    then have "0 \<le> st mod (hi - lo)" "st mod (hi - lo) < hi - lo" by simp_all
    then show ?thesis by linarith
  qed
  then show ?thesis by (simp add: rng_ok_def counter_rng_def)
qed

lemma press_loop_solvable:
  assumes ok: "rng_ok R" and sz: "0 < sz"
  shows "bit_grid sz g \<Longrightarrow> solves (build_transition_matrix sz) (concat g) x
         \<Longrightarrow> apply_moves sz g0 ms = Inr g
         \<Longrightarrow> \<exists>g' st' x' ms'. press_loop R sz k g st = (Inr g', st') \<and> bit_grid sz g'
                \<and> solves (build_transition_matrix sz) (concat g') x'
                \<and> apply_moves sz g0 ms' = Inr g'"
proof (induction k arbitrary: g st x ms)
  case 0
  then show ?case by auto
next
  case (Suc k)
  obtain row st1 where d1: "randint R 0 (int sz) st = (row, st1)" by (cases "randint R 0 (int sz) st")
  obtain col st2 where d2: "randint R 0 (int sz) st1 = (col, st2)" by (cases "randint R 0 (int sz) st1")
  have lt: "(0::int) < int sz" using sz by simp
  have row: "0 \<le> row" "row < int sz"
    using ok lt d1 unfolding rng_ok_def by (metis fst_conv)+
  have col: "0 \<le> col" "col < int sz"
    using ok lt d2 unfolding rng_ok_def by (metis fst_conv)+
  from press_solution[OF Suc.prems(1) row col Suc.prems(2)] obtain g1 where g1:
    "apply_move sz g row col = Inr g1" "bit_grid sz g1"
    "solves (build_transition_matrix sz) (concat g1)
       (x[nat (pos_to_idx sz row col) := 1 - x ! nat (pos_to_idx sz row col)])"
    by blast
  have ms1: "apply_moves sz g0 (ms @ [(row, col)]) = Inr g1"
    using Suc.prems(3) g1(1) by (simp add: apply_moves_snoc)
  have step: "press_loop R sz (Suc k) g st = press_loop R sz k g1 st2"
    using lt d1 d2 g1(1) by (simp add: py_randint_def)
  from Suc.IH[OF g1(2,3) ms1, of st2] show ?case unfolding step .
qed

section \<open>Claims about generated puzzles\<close>

text \<open>
  C2.  For every generator that keeps the contract of \<^verbatim>\<open>randint\<close>, every seed (given or
  \<open>None\<close>), every ambient generator state and every grid size \<open>n \<ge> 1\<close>: unless the
  generator itself rejects the seed, \<^verbatim>\<open>generate_random_puzzle\<close> returns a grid; that grid is
  reached from the all-off grid by a finite sequence of \<^verbatim>\<open>apply_move\<close> presses; and \<^verbatim>\<open>solve\<close>
  on it returns a move list, never \<^verbatim>\<open>None\<close>.
\<close>

theorem generated_puzzle_solvable:
  assumes "rng_ok R" "1 \<le> n"
  shows "case generate_random_puzzle R n seed st of
           (Inl e, st') \<Rightarrow> (\<exists>s. seed = Some s \<and> seed_state R s = Inl e)
         | (Inr g, st') \<Rightarrow>
             (\<exists>ms. apply_moves n (replicate n (replicate n 0)) ms = Inr g)
             \<and> (\<exists>moves. solve n g = Inr (Some moves))"
proof (cases "case seed of None \<Rightarrow> Inr st | Some s \<Rightarrow> seed_state R s")
  case (Inl e)
  then have "\<exists>s. seed = Some s \<and> seed_state R s = Inl e" by (cases seed) auto
  then show ?thesis using Inl by (simp add: generate_random_puzzle_def)
next
  case (Inr st0)
  let ?g0 = "replicate n (replicate n (0::int))"
  have n: "0 < n" using assms(2) by simp
  then have "(1::int) < int (n * n) + 1" by simp
  then have draw: "py_randint R 1 (int (n * n) + 1) st0 = Inr (randint R 1 (int (n * n) + 1) st0)"
    by (simp add: py_randint_def)
  obtain num st1 where d: "randint R 1 (int (n * n) + 1) st0 = (num, st1)"
    by (cases "randint R 1 (int (n * n) + 1) st0")
  have gen: "generate_random_puzzle R n seed st = press_loop R n (nat num) ?g0 st1"
    using Inr draw d by (simp add: generate_random_puzzle_def)
  have start: "apply_moves n ?g0 [] = Inr ?g0" by simp
  from press_loop_solvable[OF assms(1) n zero_grid_bit_grid zero_grid_solves start, of "nat num" st1]
  obtain g st' x ms where r: "press_loop R n (nat num) ?g0 st1 = (Inr g, st')" "bit_grid n g"
    "solves (build_transition_matrix n) (concat g) x" "apply_moves n ?g0 ms = Inr g"
    by blast
  from solve_solvable[OF r(2,3)] obtain moves where "solve n g = Inr (Some moves)" by blast
  then show ?thesis using gen r(1,4) by auto
qed

theorem generated_puzzle_solvable_witness:
  "rng_ok counter_rng \<and> (1::nat) \<le> 3
   \<and> (\<exists>g st'. generate_random_puzzle counter_rng 3 (Some 123) 0 = (Inr g, st')
         \<and> (\<exists>ms. apply_moves 3 (replicate 3 (replicate 3 0)) ms = Inr g)
         \<and> (\<exists>moves. solve 3 g = Inr (Some moves)))"
proof -
  have h1: "rng_ok counter_rng" by (rule counter_rng_ok)
  have h2: "(1::nat) \<le> 3" by simp
  have acc: "seed_state counter_rng 123 = Inr 123" by (simp add: counter_rng_def)
  note t = generated_puzzle_solvable[OF h1 h2, of "Some 123" 0]
  obtain res st' where res: "generate_random_puzzle counter_rng 3 (Some 123) 0 = (res, st')"
    by (cases "generate_random_puzzle counter_rng 3 (Some 123) 0")
  show ?thesis
  proof (cases res)
    case (Inl e)
    then show ?thesis using t res acc by simp
  next
    case (Inr g)
    then show ?thesis using t res h1 h2 by simp
  qed
qed

text \<open>
  C9.  \<^verbatim>\<open>generate_random_puzzle\<close> is deterministic in its seed: two calls with the same seed
  \<open>s\<close> (not \<open>None\<close>) and the same size return the same grid, whatever the state of the
  generator was before each call.
\<close>

theorem generate_deterministic:
  "fst (generate_random_puzzle R n (Some s) st) = fst (generate_random_puzzle R n (Some s) st')"
  by (cases "seed_state R s") (simp_all add: generate_random_puzzle_def)

theorem generate_deterministic_witness:
  "fst (generate_random_puzzle counter_rng 3 (Some 123) 0)
     = fst (generate_random_puzzle counter_rng 3 (Some 123) 7)"
  using generate_deterministic[of counter_rng 3 123 0 7] .

lemma generate_seeded_example:
  "fst (generate_random_puzzle counter_rng 3 (Some 123) 0) = Inr [[0, 0, 1], [0, 1, 1], [0, 0, 1]]"
  by code_simp

lemma generate_unseeded_uses_state:
  "fst (generate_random_puzzle counter_rng 2 None 0) = Inr [[1, 0], [1, 1]]
   \<and> fst (generate_random_puzzle counter_rng 2 None 1) = Inr [[0, 0], [0, 0]]"
  by code_simp

end
